theory Spec2Isabelle
  imports Main
begin

section \<open>JavaScript values and numbers\<close>

text \<open>
  The values that travel through the callbacks of \<^verbatim>\<open>series\<close> and \<^verbatim>\<open>whilst\<close> (typed
  \<^verbatim>\<open>any\<close> in the source). Only their truthiness is ever inspected.
\<close>

datatype jsval = Undefined | Null | JBool bool | JNum int | JStr string

fun truthy :: "jsval \<Rightarrow> bool" where
  "truthy Undefined = False"
| "truthy Null = False"
| "truthy (JBool b) = b"
| "truthy (JNum n) = (n \<noteq> 0)"
| "truthy (JStr s) = (s \<noteq> [])"

text \<open>
  Font sizes and pixel measurements. The source type is \<^verbatim>\<open>number\<close>; sizes are integral
  pixels, so a number is an integer or \<^verbatim>\<open>NaN\<close>. Comparisons with \<^verbatim>\<open>NaN\<close> are false and
  arithmetic on \<^verbatim>\<open>NaN\<close> gives \<^verbatim>\<open>NaN\<close>, as in JavaScript.
\<close>

datatype num = Num int | NaN

fun js_le :: "num \<Rightarrow> num \<Rightarrow> bool" where
  "js_le (Num a) (Num b) = (a \<le> b)"
| "js_le _ _ = False"

fun js_lt :: "num \<Rightarrow> num \<Rightarrow> bool" where
  "js_lt (Num a) (Num b) = (a < b)"
| "js_lt _ _ = False"

fun isNaN :: "num \<Rightarrow> bool" where
  "isNaN NaN = True"
| "isNaN (Num _) = False"

fun js_add :: "num \<Rightarrow> int \<Rightarrow> num" where
  "js_add (Num a) k = Num (a + k)"
| "js_add NaN k = NaN"

fun Math_min :: "num \<Rightarrow> num \<Rightarrow> num" where
  "Math_min (Num a) (Num b) = Num (min a b)"
| "Math_min _ _ = NaN"

fun Math_max :: "num \<Rightarrow> num \<Rightarrow> num" where
  "Math_max (Num a) (Num b) = Num (max a b)"
| "Math_max _ _ = NaN"

text \<open>
  \<^verbatim>\<open>parseInt(((low + high) / 2).toString(), 10)\<close>: the quotient is an integer or ends in
  \<^verbatim>\<open>.5\<close>; its decimal string is read up to the point, which truncates towards zero.
\<close>

definition trunc_half :: "int \<Rightarrow> int" where
  "trunc_half s = (if 0 \<le> s then s div 2 else - ((- s) div 2))"

fun parseInt_half :: "num \<Rightarrow> num \<Rightarrow> num" where
  "parseInt_half (Num a) (Num b) = Num (trunc_half (a + b))"
| "parseInt_half _ _ = NaN"

text \<open>\<^verbatim>\<open>x || d\<close> on a numeric prop: zero is falsy.\<close>

definition or_default :: "int \<Rightarrow> int \<Rightarrow> int" where
  "or_default x d = (if x = 0 then d else x)"

text \<open>A variable that may still be \<^verbatim>\<open>undefined\<close>, read as a number: \<^verbatim>\<open>undefined\<close> converts to \<^verbatim>\<open>NaN\<close>.\<close>

fun toNumber :: "num option \<Rightarrow> num" where
  "toNumber None = NaN"
| "toNumber (Some n) = n"

section \<open>Callback-passing style\<close>

text \<open>
  A function that receives a completion callback either invokes it before it returns
  (\<open>Called err result\<close>: the callback runs inside the caller's invocation), or returns
  with the callback stored for a later tick (\<open>Pending k\<close>, where \<open>k\<close> names the stored
  continuation). A synchronous segment that never returns is \<open>None\<close>.
\<close>

datatype 'k outcome = Called jsval jsval | Pending 'k

type_synonym ('s, 'k) task = "'s \<Rightarrow> ('k outcome \<times> 's) option"

section \<open>utils/series.ts\<close>

text \<open>The closure variables of one \<^verbatim>\<open>series\<close> call.\<close>

record series_vars =
  results :: "jsval list"
  current :: nat
  isSync :: bool

text \<open>
  What a \<^verbatim>\<open>series\<close> call is waiting for when control returns to the scheduler: a step that
  has not called back yet, the timer set by \<^verbatim>\<open>setTimeout(end, 0)\<close>, or a callback that
  the terminal callback itself left pending.
\<close>

datatype ('k, 'j) waiting = Task 'k | Timer jsval | After 'j

type_synonym ('s, 'j) SeriesCallback = "jsval \<Rightarrow> jsval list \<Rightarrow> 's \<Rightarrow> 'j option \<times> 's"

definition series_end ::
  "('s, 'j) SeriesCallback option \<Rightarrow> jsval \<Rightarrow> series_vars \<times> 's
     \<Rightarrow> ('k, 'j) waiting option \<times> series_vars \<times> 's" where
  "series_end cb err = (\<lambda>(v, s).
     case cb of
       None \<Rightarrow> (None, v, s)
     | Some f \<Rightarrow> (case f err (results v) s of (j, s') \<Rightarrow> (map_option After j, v, s')))"

definition series_done ::
  "('s, 'j) SeriesCallback option \<Rightarrow> jsval \<Rightarrow> series_vars \<times> 's
     \<Rightarrow> ('k, 'j) waiting option \<times> series_vars \<times> 's" where
  "series_done cb err = (\<lambda>(v, s).
     if isSync v then (Some (Timer err), v, s) else series_end cb err (v, s))"

function series_each ::
  "('s, 'k) task list \<Rightarrow> ('s, 'j) SeriesCallback option \<Rightarrow> jsval \<Rightarrow> jsval
     \<Rightarrow> series_vars \<times> 's \<Rightarrow> (('k, 'j) waiting option \<times> series_vars \<times> 's) option" where
  "series_each tasks cb err result (v, s) =
     (let v1 = v\<lparr>results := results v @ [result]\<rparr>;
          v2 = v1\<lparr>current := current v1 + 1\<rparr>
      in if length tasks \<le> current v2 \<or> truthy err then Some (series_done cb err (v2, s))
         else (case (tasks ! current v2) s of
                 None \<Rightarrow> None
               | Some (Called err' result', s') \<Rightarrow> series_each tasks cb err' result' (v2, s')
               | Some (Pending k, s') \<Rightarrow> Some (Some (Task k), v2, s')))"
  by pat_completeness auto
termination
  by (relation "measure (\<lambda>(tasks, cb, err, result, v, s). length tasks - current v)") auto

declare series_each.simps [simp del]

text \<open>
  The callback \<^verbatim>\<open>each\<close> as a step sees it: the step's outcome either calls \<^verbatim>\<open>each\<close> now or
  leaves the series waiting for the step.
\<close>

definition series_resume ::
  "('s, 'k) task list \<Rightarrow> ('s, 'j) SeriesCallback option \<Rightarrow> 'k outcome
     \<Rightarrow> series_vars \<times> 's \<Rightarrow> (('k, 'j) waiting option \<times> series_vars \<times> 's) option" where
  "series_resume tasks cb out = (\<lambda>(v, s).
     case out of
       Called err result \<Rightarrow> series_each tasks cb err result (v, s)
     | Pending k \<Rightarrow> Some (Some (Task k), v, s))"

definition series ::
  "('s, 'k) task list \<Rightarrow> ('s, 'j) SeriesCallback option \<Rightarrow> 's
     \<Rightarrow> (('k, 'j) waiting option \<times> series_vars \<times> 's) option" where
  "series tasks cb s =
     (let v0 = \<lparr>results = [], current = 0, isSync = True\<rparr>;
          r = (if 0 < length tasks
               then (case (tasks ! 0) s of
                       None \<Rightarrow> None
                     | Some (out, s') \<Rightarrow> series_resume tasks cb out (v0, s'))
               else Some (series_done cb Null (v0, s)))
      in map_option (\<lambda>(k, v, s'). (k, v\<lparr>isSync := False\<rparr>, s')) r)"

section \<open>utils/whilst.ts\<close>

text \<open>
  The continuation \<^verbatim>\<open>next\<close> that \<^verbatim>\<open>whilst\<close> hands to the iterator. It calls the iterator
  again from inside itself, so a run of iterations that all call back at once is a
  recursion, which need not end: its value is then \<open>None\<close>. The further arguments of
  \<^verbatim>\<open>next\<close> are passed on to \<^verbatim>\<open>test\<close>; a test here reads the closure variables only. The
  final \<^verbatim>\<open>callback\<close> is the caller's continuation, invoked in tail position: \<open>Called\<close>.
\<close>

partial_function (option) whilst_next ::
  "('s \<Rightarrow> bool) \<Rightarrow> ('s, 'k) task \<Rightarrow> jsval \<Rightarrow> 's \<Rightarrow> ('k outcome \<times> 's) option" where
  "whilst_next test iterator err s =
     (if truthy err then Some (Called err Undefined, s)
      else if test s then
        (case iterator s of
           None \<Rightarrow> None
         | Some (Called err' result', s') \<Rightarrow> whilst_next test iterator err' s'
         | Some (Pending k, s') \<Rightarrow> Some (Pending k, s'))
      else Some (Called Null Undefined, s))"

declare whilst_next.simps [code]

definition whilst :: "('s \<Rightarrow> bool) \<Rightarrow> ('s, 'k) task \<Rightarrow> ('s, 'k) task" where
  "whilst test iterator s =
     (if test s then
        (case iterator s of
           None \<Rightarrow> None
         | Some (Called err result, s') \<Rightarrow> whilst_next test iterator err s'
         | Some (Pending k, s') \<Rightarrow> Some (Pending k, s'))
      else Some (Called Null Undefined, s))"

section \<open>Textfit.tsx\<close>

subsection \<open>Props, component state and the page\<close>

datatype fit_mode = Single | Multi

text \<open>
  The props that \<^verbatim>\<open>process\<close> destructures (\<^verbatim>\<open>min\<close>, \<^verbatim>\<open>max\<close>, \<^verbatim>\<open>mode\<close>,
  \<^verbatim>\<open>forceSingleModeWidth\<close>; \<^verbatim>\<open>onReady\<close> is observed through the trace below).
\<close>

record TextFitProps =
  min_prop :: int
  max_prop :: int
  mode :: fit_mode
  forceSingleModeWidth :: bool

record TextFitState =
  fontSize :: "num option"
  ready :: bool

text \<open>
  What \<^verbatim>\<open>process\<close> and its callbacks read from the page. The module \<^verbatim>\<open>utils/innerSize\<close>
  is not among the sources: the values that \<^verbatim>\<open>innerWidth(el)\<close> and \<^verbatim>\<open>innerHeight(el)\<close>
  return are parameters. \<open>hasRefs\<close> is \<^verbatim>\<open>this._parent && this._child\<close>; the scroll size of
  the wrapper depends on the rendered component state.
\<close>

record dom =
  hasRefs :: bool
  innerWidth :: num
  innerHeight :: num
  scrollWidth :: "TextFitState \<Rightarrow> int"
  scrollHeight :: "TextFitState \<Rightarrow> int"

text \<open>The local variables of one \<^verbatim>\<open>process\<close> call, shared by its closures.\<close>

record closure =
  props :: TextFitProps
  originalWidth :: num
  originalHeight :: num
  c_pid :: nat
  mid :: "num option"
  low :: num
  high :: num

text \<open>
  Calls that leave the component, in the order they happen. The callers of \<^verbatim>\<open>onReady\<close>,
  \<^verbatim>\<open>testPrimary\<close> and \<^verbatim>\<open>testSecondary\<close> are identified by the \<^verbatim>\<open>pid\<close> their closure
  captured.
\<close>

datatype event =
    Warn string
  | OnReady nat "num option"
  | TestPrimary nat
  | TestSecondary nat

text \<open>The callbacks handed to \<^verbatim>\<open>setState\<close>: by the two search loops, by step 3, by the terminal callback.\<close>

datatype step_k = CbPhase1 | CbPhase2 | CbFinal

datatype final_k = CbReady

type_synonym pending_cb = "(step_k, final_k) waiting \<times> series_vars \<times> closure"

text \<open>
  The component instance (\<^verbatim>\<open>this.state\<close>, \<^verbatim>\<open>this.pid\<close> with \<open>0\<close> for the initial empty
  string), the counter behind lodash's \<^verbatim>\<open>uniqueId\<close>, the trace of outgoing calls, and
  the callbacks that wait for the scheduler.
\<close>

record world =
  state :: TextFitState
  pid :: nat
  idCounter :: nat
  trace :: "event list"
  pending :: "pending_cb list"

definition uniqueId :: "world \<Rightarrow> nat \<times> world" where
  "uniqueId w = (idCounter w + 1, w\<lparr>idCounter := idCounter w + 1\<rparr>)"

text \<open>
  \<^verbatim>\<open>this.setState(update, callback)\<close>: the update is applied here, the callback is returned
  to the caller as pending and runs on a later tick, once the update is rendered.
\<close>

definition setState_fontSize :: "num option \<Rightarrow> world \<Rightarrow> world" where
  "setState_fontSize m w = w\<lparr>state := (state w)\<lparr>fontSize := m\<rparr>\<rparr>"

definition setState_ready :: "bool \<Rightarrow> world \<Rightarrow> world" where
  "setState_ready b w = w\<lparr>state := (state w)\<lparr>ready := b\<rparr>\<rparr>"

definition assertElementFitsWidth :: "dom \<Rightarrow> world \<Rightarrow> num \<Rightarrow> bool" where
  "assertElementFitsWidth el w width = js_le (Num (scrollWidth el (state w) - 1)) width"

definition assertElementFitsHeight :: "dom \<Rightarrow> world \<Rightarrow> num \<Rightarrow> bool" where
  "assertElementFitsHeight el w height = js_le (Num (scrollHeight el (state w) - 1)) height"

subsection \<open>The closures of process\<close>

definition shouldCancelProcess :: "closure \<times> world \<Rightarrow> bool" where
  "shouldCancelProcess = (\<lambda>(c, w). c_pid c \<noteq> pid w)"

definition testPrimary :: "dom \<Rightarrow> closure \<times> world \<Rightarrow> bool \<times> world" where
  "testPrimary el = (\<lambda>(c, w).
     (if mode (props c) = Multi then assertElementFitsHeight el w (originalHeight c)
      else assertElementFitsWidth el w (originalWidth c),
      w\<lparr>trace := trace w @ [TestPrimary (c_pid c)]\<rparr>))"

definition testSecondary :: "dom \<Rightarrow> closure \<times> world \<Rightarrow> bool \<times> world" where
  "testSecondary el = (\<lambda>(c, w).
     (if mode (props c) = Multi then assertElementFitsWidth el w (originalWidth c)
      else assertElementFitsHeight el w (originalHeight c),
      w\<lparr>trace := trace w @ [TestSecondary (c_pid c)]\<rparr>))"

text \<open>Step 1: the loop test, the iterator, and the callback the iterator gives to \<^verbatim>\<open>setState\<close>.\<close>

definition test1 :: "closure \<times> world \<Rightarrow> bool" where
  "test1 = (\<lambda>(c, w). js_le (low c) (high c))"

definition iterator1 :: "(closure \<times> world, step_k) task" where
  "iterator1 = (\<lambda>(c, w).
     if shouldCancelProcess (c, w) then Some (Called (JBool True) Undefined, (c, w))
     else let c' = c\<lparr>mid := Some (parseInt_half (low c) (high c))\<rparr>
          in Some (Pending CbPhase1, (c', setState_fontSize (mid c') w)))"

definition callback1 :: "dom \<Rightarrow> closure \<times> world \<Rightarrow> jsval \<times> closure \<times> world" where
  "callback1 el = (\<lambda>(c, w).
     if shouldCancelProcess (c, w) then (JBool True, (c, w))
     else (case testPrimary el (c, w) of (fits, w') \<Rightarrow>
             (Undefined,
              (if fits then c\<lparr>low := js_add (toNumber (mid c)) 1\<rparr>
               else c\<lparr>high := js_add (toNumber (mid c)) (- 1)\<rparr>),
              w')))"

definition step1 :: "(closure \<times> world, step_k) task" where
  "step1 = whilst test1 iterator1"

text \<open>Step 2: the same three closures for the secondary axis, and the step itself.\<close>

definition test2 :: "closure \<times> world \<Rightarrow> bool" where
  "test2 = (\<lambda>(c, w). js_lt (low c) (high c))"

definition iterator2 :: "(closure \<times> world, step_k) task" where
  "iterator2 = (\<lambda>(c, w).
     if shouldCancelProcess (c, w) then Some (Called (JBool True) Undefined, (c, w))
     else let c' = c\<lparr>mid := Some (parseInt_half (low c) (high c))\<rparr>
          in Some (Pending CbPhase2, (c', setState_fontSize (mid c') w)))"

definition callback2 :: "dom \<Rightarrow> closure \<times> world \<Rightarrow> jsval \<times> closure \<times> world" where
  "callback2 el = (\<lambda>(c, w).
     if c_pid c \<noteq> pid w then (JBool True, (c, w))
     else (case testSecondary el (c, w) of (fits, w') \<Rightarrow>
             (Undefined,
              (if fits then c\<lparr>low := js_add (toNumber (mid c)) 1\<rparr>
               else c\<lparr>high := js_add (toNumber (mid c)) (- 1)\<rparr>),
              w')))"

definition step2 :: "dom \<Rightarrow> (closure \<times> world, step_k) task" where
  "step2 el = (\<lambda>(c, w).
     if mode (props c) = Single \<and> forceSingleModeWidth (props c)
     then Some (Called Null Undefined, (c, w))
     else (case testSecondary el (c, w) of (fits, w') \<Rightarrow>
             if fits then Some (Called Null Undefined, (c, w'))
             else whilst test2 iterator2
                    (c\<lparr>low := Num (or_default (min_prop (props c)) 1),
                       high := toNumber (mid c)\<rparr>, w')))"

text \<open>Step 3: the limits.\<close>

definition step3 :: "(closure \<times> world, step_k) task" where
  "step3 = (\<lambda>(c, w).
     let m1 = Math_min (low c) (high c);
         m2 = Math_max m1 (Num (or_default (min_prop (props c)) 1));
         m3 = Math_min m2 (Num (or_default (max_prop (props c)) 100));
         m4 = Math_max m3 (Num 0);
         c' = c\<lparr>mid := Some m4\<rparr>
     in if shouldCancelProcess (c', w) then Some (Called (JBool True) Undefined, (c', w))
        else Some (Pending CbFinal, (c', setState_fontSize (mid c') w)))"

definition tasks :: "dom \<Rightarrow> (closure \<times> world, step_k) task list" where
  "tasks el = [step1, step2 el, step3]"

text \<open>The terminal callback of the series, and the callback it gives to \<^verbatim>\<open>setState\<close>.\<close>

definition final_cb :: "(closure \<times> world, final_k) SeriesCallback" where
  "final_cb err rs = (\<lambda>(c, w).
     if truthy err \<or> shouldCancelProcess (c, w) then (None, (c, w))
     else (Some CbReady, (c, setState_ready True w)))"

definition callback_ready :: "closure \<times> world \<Rightarrow> closure \<times> world" where
  "callback_ready = (\<lambda>(c, w). (c, w\<lparr>trace := trace w @ [OnReady (c_pid c) (mid c)]\<rparr>))"

subsection \<open>process, and the scheduler that resumes its callbacks\<close>

text \<open>
  When a synchronous segment returns, the callback it left behind (if any) waits in
  \<open>pending\<close> together with the closure variables it will see.
\<close>

definition suspend ::
  "((step_k, final_k) waiting option \<times> series_vars \<times> closure \<times> world) option \<Rightarrow> world option" where
  "suspend r =
     (case r of
        None \<Rightarrow> None
      | Some (None, v, c, w) \<Rightarrow> Some w
      | Some (Some k, v, c, w) \<Rightarrow> Some (w\<lparr>pending := pending w @ [(k, v, c)]\<rparr>))"

definition process :: "dom \<Rightarrow> TextFitProps \<Rightarrow> world \<Rightarrow> world option" where
  "process el p w =
     (if \<not> hasRefs el then Some w
      else if js_le (innerHeight el) (Num 0) \<or> isNaN (innerHeight el)
      then Some (w\<lparr>trace := trace w @ [Warn ''Can not process element without height. Make sure the element is displayed and has a static height.'']\<rparr>)
      else if js_le (innerWidth el) (Num 0) \<or> isNaN (innerWidth el)
      then Some (w\<lparr>trace := trace w @ [Warn ''Can not process element without width. Make sure the element is displayed and has a static width.'']\<rparr>)
      else (case uniqueId w of (new_pid, w1) \<Rightarrow>
              let w2 = w1\<lparr>pid := new_pid\<rparr>;
                  c = \<lparr>props = p, originalWidth = innerWidth el, originalHeight = innerHeight el,
                       c_pid = new_pid, mid = None,
                       low = Num (or_default (min_prop p) 1),
                       high = Num (or_default (max_prop p) 100)\<rparr>;
                  w3 = setState_ready False w2
              in suspend (series (tasks el) (Some final_cb) (c, w3))))"

definition resume :: "dom \<Rightarrow> pending_cb \<Rightarrow> world \<Rightarrow> world option" where
  "resume el = (\<lambda>(k, v, c) w.
     case k of
       Task CbPhase1 \<Rightarrow>
         (case callback1 el (c, w) of (err, s) \<Rightarrow>
            (case whilst_next test1 iterator1 err s of
               None \<Rightarrow> None
             | Some (out, s') \<Rightarrow> suspend (series_resume (tasks el) (Some final_cb) out (v, s'))))
     | Task CbPhase2 \<Rightarrow>
         (case callback2 el (c, w) of (err, s) \<Rightarrow>
            (case whilst_next test2 iterator2 err s of
               None \<Rightarrow> None
             | Some (out, s') \<Rightarrow> suspend (series_resume (tasks el) (Some final_cb) out (v, s'))))
     | Task CbFinal \<Rightarrow> suspend (series_each (tasks el) (Some final_cb) Null Undefined (v, (c, w)))
     | Timer err \<Rightarrow> suspend (Some (series_end (Some final_cb) err (v, (c, w))))
     | After CbReady \<Rightarrow> Some (snd (callback_ready (c, w))))"

text \<open>The scheduler runs the \<open>i\<close>-th waiting callback, in any order it likes.\<close>

definition fire :: "nat \<Rightarrow> dom \<Rightarrow> world \<Rightarrow> world option" where
  "fire i el w =
     (if i < length (pending w)
      then resume el (pending w ! i) (w\<lparr>pending := take i (pending w) @ drop (Suc i) (pending w)\<rparr>)
      else Some w)"

definition componentWillUnmount :: "world \<Rightarrow> world" where
  "componentWillUnmount w = (case uniqueId w of (new_pid, w1) \<Rightarrow> w1\<lparr>pid := new_pid\<rparr>)"

text \<open>
  What can happen to a mounted component: a fit is requested (mount, update, resize) on
  the page and props of that moment, a waiting callback runs, the component unmounts.
\<close>

datatype action = Request dom TextFitProps | Fire nat dom | Unmount

fun perform :: "action \<Rightarrow> world \<Rightarrow> world option" where
  "perform (Request el p) w = process el p w"
| "perform (Fire i el) w = fire i el w"
| "perform Unmount w = Some (componentWillUnmount w)"

fun exec :: "action list \<Rightarrow> world \<Rightarrow> world option" where
  "exec [] w = Some w"
| "exec (a # as) w = (case perform a w of None \<Rightarrow> None | Some w' \<Rightarrow> exec as w')"

definition world0 :: world where
  "world0 = \<lparr>state = \<lparr>fontSize = None, ready = False\<rparr>, pid = 0, idCounter = 0,
             trace = [], pending = []\<rparr>"

section \<open>Reference definitions used in the statements\<close>

subsection \<open>The sequencer in the words of its contract\<close>

text \<open>
  Steps run strictly in order; a step that has not called back suspends the sequence; a
  step that reports an error ends it with that error and the remaining steps are
  skipped; otherwise each result is appended, so that results are aligned with the
  steps, and the sequence completes after the last step.
\<close>

datatype 'k ending = Completed jsval | Suspended 'k

fun steps_in_order ::
  "('s, 'k) task list \<Rightarrow> jsval list \<Rightarrow> jsval \<Rightarrow> 's \<Rightarrow> ('k ending \<times> jsval list \<times> 's) option" where
  "steps_in_order [] rs e s = Some (Completed e, rs, s)"
| "steps_in_order (t # ts) rs e s =
     (case t s of
        None \<Rightarrow> None
      | Some (Pending k, s') \<Rightarrow> Some (Suspended k, rs, s')
      | Some (Called e' r, s') \<Rightarrow>
          if truthy e' then Some (Completed e', rs @ [r], s')
          else steps_in_order ts (rs @ [r]) e' s')"

text \<open>
  How an ending reaches the terminal callback: a suspended step leaves the series waiting
  for it, a completed sequence goes through \<^verbatim>\<open>done\<close>.
\<close>

definition deliver ::
  "('s, 'j) SeriesCallback option \<Rightarrow> series_vars \<Rightarrow> ('k ending \<times> jsval list \<times> 's) option
     \<Rightarrow> (('k, 'j) waiting option \<times> series_vars \<times> 's) option" where
  "deliver cb v r =
     (case r of
        None \<Rightarrow> None
      | Some (Suspended k, rs, s') \<Rightarrow> Some (Some (Task k), v\<lparr>results := rs, current := length rs\<rparr>, s')
      | Some (Completed e, rs, s') \<Rightarrow>
          Some (series_done cb e (v\<lparr>results := rs, current := length rs\<rparr>, s')))"

subsection \<open>Call depth of the repeater\<close>






subsection \<open>Predicates on props, closures and waiting callbacks\<close>

text \<open>The invariant of the configuration: positive sizes, the minimum not above the maximum.\<close>

definition valid :: "TextFitProps \<Rightarrow> bool" where
  "valid p \<longleftrightarrow> 0 < min_prop p \<and> min_prop p \<le> max_prop p"

definition single_forced :: "TextFitProps \<Rightarrow> bool" where
  "single_forced p \<longleftrightarrow> mode p = Single \<and> forceSingleModeWidth p"

text \<open>The value step 3 leaves in \<^verbatim>\<open>mid\<close>, on integers.\<close>

definition limits :: "TextFitProps \<Rightarrow> int \<Rightarrow> int \<Rightarrow> int" where
  "limits p l h = max (min (max (min l h) (min_prop p)) (max_prop p)) 0"

text \<open>The same value on numbers, as step 3 computes it from the closure.\<close>

definition step3_mid :: "closure \<Rightarrow> num" where
  "step3_mid c =
     Math_max (Math_min (Math_max (Math_min (low c) (high c))
                                  (Num (or_default (min_prop (props c)) 1)))
                        (Num (or_default (max_prop (props c)) 100)))
              (Num 0)"

text \<open>A search is under way: the bounds are numbers and a candidate has been applied.\<close>

definition searching :: "closure \<Rightarrow> bool" where
  "searching c \<longleftrightarrow> (\<exists>l h m. low c = Num l \<and> high c = Num h \<and> mid c = Some (Num m))"

definition in_range :: "closure \<Rightarrow> bool" where
  "in_range c \<longleftrightarrow>
     (\<exists>m. mid c = Some (Num m) \<and> min_prop (props c) \<le> m \<and> m \<le> max_prop (props c))"

text \<open>
  What holds of a waiting callback of a run with valid props: where the series stands,
  and what the closure variables are.
\<close>

fun ok :: "pending_cb \<Rightarrow> bool" where
  "ok (Task CbPhase1, v, c) = (current v = 0 \<and> searching c)"
| "ok (Task CbPhase2, v, c) = (current v = 1 \<and> searching c)"
| "ok (Task CbFinal, v, c) = (current v = 2 \<and> in_range c)"
| "ok (After CbReady, v, c) = in_range c"
| "ok (Timer e, v, c) = False"

text \<open>The measurements a run may make: never the secondary one when it is single-line and forced.\<close>

definition tests_of :: "TextFitProps \<Rightarrow> nat \<Rightarrow> event set" where
  "tests_of p q =
     (if single_forced p then {TestPrimary q} else {TestPrimary q, TestSecondary q})"

definition own_tests :: "closure \<Rightarrow> event set" where
  "own_tests c = tests_of (props c) (c_pid c)"

text \<open>
  What a synchronous segment of a run leaves alone: its props and token, the current
  token, the id counter and the waiting callbacks; and what it adds to the trace.
\<close>

definition seg :: "closure \<times> world \<Rightarrow> closure \<times> world \<Rightarrow> bool" where
  "seg = (\<lambda>(c, w) (c', w').
     props c' = props c \<and> c_pid c' = c_pid c \<and> pid w' = pid w \<and> idCounter w' = idCounter w
     \<and> pending w' = pending w \<and> (\<exists>evs. trace w' = trace w @ evs \<and> set evs \<subseteq> own_tests c))"

text \<open>
  What a segment of the series leaves when it returns: it has returned, \<^verbatim>\<open>isSync\<close> is
  as it was, and a single-line forced run is not in its second search.
\<close>

definition post ::
  "closure \<times> world \<Rightarrow> series_vars
     \<Rightarrow> ((step_k, final_k) waiting option \<times> series_vars \<times> closure \<times> world) option \<Rightarrow> bool" where
  "post s v r \<longleftrightarrow>
     (\<exists>k v' s'. r = Some (k, v', s') \<and> seg s s' \<and> isSync v' = isSync v
        \<and> (single_forced (props (fst s)) \<longrightarrow> k \<noteq> Some (Task CbPhase2)))"

definition post_ok ::
  "((step_k, final_k) waiting option \<times> series_vars \<times> closure \<times> world) option \<Rightarrow> bool" where
  "post_ok r \<longleftrightarrow> (\<forall>k v' c' w'. r = Some (Some k, v', (c', w')) \<longrightarrow> ok (k, v', c'))"

text \<open>
  What running a waiting callback does to the world: the tokens stay, the trace grows by
  the calls this kind of callback makes, and at most one callback of the same run is left
  waiting, which is \<open>ok\<close> if the one that ran was.
\<close>

definition emits :: "(step_k, final_k) waiting \<Rightarrow> closure \<Rightarrow> event set" where
  "emits k c =
     (if k = After CbReady then {OnReady (c_pid c) (mid c)}
      else if k = Task CbPhase2 then {TestPrimary (c_pid c), TestSecondary (c_pid c)}
      else own_tests c)"

definition follows :: "pending_cb \<Rightarrow> pending_cb \<Rightarrow> bool" where
  "follows = (\<lambda>(k, v, c) (k', v', c').
     props c' = props c \<and> c_pid c' = c_pid c \<and> isSync v' = isSync v
     \<and> (single_forced (props c) \<and> k \<noteq> Task CbPhase2 \<longrightarrow> k' \<noteq> Task CbPhase2)
     \<and> (valid (props c) \<and> ok (k, v, c) \<and> \<not> isSync v \<longrightarrow> ok (k', v', c')))"

definition fired :: "pending_cb \<Rightarrow> world \<Rightarrow> world option \<Rightarrow> bool" where
  "fired x w r \<longleftrightarrow>
     (\<exists>w' evs ks. r = Some w' \<and> pid w' = pid w \<and> idCounter w' = idCounter w
        \<and> trace w' = trace w @ evs \<and> set evs \<subseteq> emits (fst x) (snd (snd x))
        \<and> pending w' = pending w @ ks \<and> length ks \<le> 1 \<and> (\<forall>y \<in> set ks. follows x y))"

text \<open>
  What a fit request does to the world: it is turned away (the tokens stay, at most a
  warning is logged), or it mints the next token and leaves one callback of the new run
  waiting.
\<close>

definition born :: "TextFitProps \<Rightarrow> nat \<Rightarrow> pending_cb \<Rightarrow> bool" where
  "born p q = (\<lambda>(k, v, c).
     props c = p \<and> c_pid c = q \<and> \<not> isSync v
     \<and> (single_forced p \<longrightarrow> k \<noteq> Task CbPhase2) \<and> (valid p \<longrightarrow> ok (k, v, c)))"

definition started :: "TextFitProps \<Rightarrow> world \<Rightarrow> world option \<Rightarrow> bool" where
  "started p w r \<longleftrightarrow>
     (\<exists>w' evs ks. r = Some w' \<and> trace w' = trace w @ evs \<and> pending w' = pending w @ ks
        \<and> ((pid w' = pid w \<and> idCounter w' = idCounter w \<and> ks = [] \<and> state w' = state w
              \<and> (evs = [] \<or> (\<exists>m. evs = [Warn m])))
            \<or> (pid w' = Suc (idCounter w) \<and> idCounter w' = Suc (idCounter w)
                \<and> set evs \<subseteq> tests_of p (Suc (idCounter w)) \<and> length ks \<le> 1
                \<and> (\<forall>x \<in> set ks. born p (Suc (idCounter w)) x))))"

text \<open>The run an event belongs to.\<close>

fun event_pid :: "event \<Rightarrow> nat" where
  "event_pid (Warn m) = 0"
| "event_pid (OnReady q x) = q"
| "event_pid (TestPrimary q) = q"
| "event_pid (TestSecondary q) = q"

text \<open>A request that passes the checks of \<^verbatim>\<open>process\<close>: the refs are set and the baseline is positive.\<close>

definition accepted :: "dom \<Rightarrow> bool" where
  "accepted el \<longleftrightarrow> hasRefs el \<and> \<not> (js_le (innerHeight el) (Num 0) \<or> isNaN (innerHeight el))
      \<and> \<not> (js_le (innerWidth el) (Num 0) \<or> isNaN (innerWidth el))"

text \<open>The closure variables and the world with which an accepted request enters \<^verbatim>\<open>series\<close>.\<close>

definition closure0 :: "dom \<Rightarrow> TextFitProps \<Rightarrow> nat \<Rightarrow> closure" where
  "closure0 el p q = \<lparr>props = p, originalWidth = innerWidth el, originalHeight = innerHeight el,
       c_pid = q, mid = None, low = Num (or_default (min_prop p) 1),
       high = Num (or_default (max_prop p) 100)\<rparr>"

definition world1 :: "world \<Rightarrow> world" where
  "world1 w = setState_ready False (w\<lparr>idCounter := idCounter w + 1, pid := idCounter w + 1\<rparr>)"

subsection \<open>Invariants of executions\<close>

text \<open>Tokens come from the counter: no waiting callback and no event is ahead of it.\<close>

definition fresh_cb :: "nat \<Rightarrow> pending_cb \<Rightarrow> bool" where
  "fresh_cb n = (\<lambda>(k, v, c). c_pid c \<le> n \<and> \<not> isSync v)"

definition fresh :: "world \<Rightarrow> bool" where
  "fresh w \<longleftrightarrow>
     (\<forall>x \<in> set (pending w). fresh_cb (idCounter w) x)
     \<and> (\<forall>e \<in> set (trace w). event_pid e \<le> idCounter w)"

text \<open>
  The run with token \<open>q\<close> and props \<open>p\<close>: what its events and its waiting callbacks
  satisfy at any time after the request that started it.
\<close>

definition good_event :: "nat \<Rightarrow> TextFitProps \<Rightarrow> event \<Rightarrow> bool" where
  "good_event q p e \<longleftrightarrow>
     (single_forced p \<longrightarrow> e \<noteq> TestSecondary q)
     \<and> (valid p \<longrightarrow> (\<forall>x. e = OnReady q x \<longrightarrow>
            (\<exists>m. x = Some (Num m) \<and> min_prop p \<le> m \<and> m \<le> max_prop p)))"

definition good_cb :: "nat \<Rightarrow> TextFitProps \<Rightarrow> pending_cb \<Rightarrow> bool" where
  "good_cb q p = (\<lambda>(k, v, c). c_pid c = q \<longrightarrow>
     props c = p \<and> (single_forced p \<longrightarrow> k \<noteq> Task CbPhase2) \<and> (valid p \<longrightarrow> ok (k, v, c)))"

definition run_inv :: "nat \<Rightarrow> TextFitProps \<Rightarrow> world \<Rightarrow> bool" where
  "run_inv q p w \<longleftrightarrow>
     q \<le> idCounter w \<and> fresh w
     \<and> (\<forall>x \<in> set (pending w). good_cb q p x)
     \<and> (\<forall>e \<in> set (trace w). good_event q p e)"

text \<open>
  The same world with other events before its trace. Nothing in the engine reads the
  trace, so an execution from such a world differs by that prefix only.
\<close>

definition retrace :: "event list \<Rightarrow> world \<Rightarrow> world" where
  "retrace t w = w\<lparr>trace := t @ trace w\<rparr>"

definition retrace_s :: "event list \<Rightarrow> closure \<times> world \<Rightarrow> closure \<times> world" where
  "retrace_s t = (\<lambda>(c, w). (c, retrace t w))"

subsection \<open>A run that nothing interferes with\<close>

text \<open>
  While a search loop waits for its \<^verbatim>\<open>setState\<close> callback, \<^verbatim>\<open>mid\<close> is an integer between
  \<^verbatim>\<open>low\<close> and \<^verbatim>\<open>high\<close>.
\<close>

definition probing :: "closure \<Rightarrow> bool" where
  "probing c \<longleftrightarrow>
     (\<exists>l h m. low c = Num l \<and> high c = Num h \<and> mid c = Some (Num m) \<and> l \<le> m \<and> m \<le> h)"

text \<open>How many sizes the search interval still holds, and how far along the series a waiting
  callback is: together they decrease each time the callback is run.\<close>

fun remaining :: "closure \<Rightarrow> nat" where
  "remaining c = (case (low c, high c) of (Num l, Num h) \<Rightarrow> nat (h - l + 1) | _ \<Rightarrow> 0)"

fun stage :: "(step_k, final_k) waiting \<Rightarrow> nat" where
  "stage (Task CbPhase1) = 3"
| "stage (Task CbPhase2) = 2"
| "stage (Task CbFinal) = 1"
| "stage (After CbReady) = 0"
| "stage (Timer e) = 0"

text \<open>
  The only waiting callback of the world belongs to the current run, whose props are valid.
\<close>

definition lone :: "world \<Rightarrow> pending_cb \<Rightarrow> bool" where
  "lone w = (\<lambda>(k, v, c). pending w = [(k, v, c)] \<and> c_pid c = pid w \<and> \<not> isSync v
      \<and> valid (props c) \<and> ok (k, v, c)
      \<and> (k = Task CbPhase1 \<or> k = Task CbPhase2 \<longrightarrow> probing c)
      \<and> (k = Task CbFinal \<or> k = After CbReady \<longrightarrow> fontSize (state w) = mid c)
      \<and> (k = After CbReady \<longrightarrow> ready (state w)))"

text \<open>The order in which a run left alone progresses.\<close>

definition smaller :: "pending_cb \<Rightarrow> pending_cb \<Rightarrow> bool" where
  "smaller y x \<longleftrightarrow>
     stage (fst y) < stage (fst x)
     \<or> (stage (fst y) = stage (fst x) \<and> remaining (snd (snd y)) < remaining (snd (snd x)))"

subsection \<open>Example pages and props\<close>

text \<open>
  A 200 by 50 container whose text is 5 units wide per unit of font size and overflows
  the height above size 40.
\<close>

definition page_A :: dom where
  "page_A = \<lparr>hasRefs = True, innerWidth = Num 200, innerHeight = Num 50,
     scrollWidth = (\<lambda>st. case fontSize st of Some (Num n) \<Rightarrow> 5 * n | _ \<Rightarrow> 0),
     scrollHeight = (\<lambda>st. case fontSize st of Some (Num n) \<Rightarrow> (if n \<le> 40 then 50 else 60) | _ \<Rightarrow> 0)\<rparr>"

definition page_no_height :: dom where
  "page_no_height = page_A\<lparr>innerHeight := Num 0\<rparr>"

definition props_default :: TextFitProps where
  "props_default = \<lparr>min_prop = 1, max_prop = 100, mode = Multi, forceSingleModeWidth = True\<rparr>"

definition props_fixed :: "int \<Rightarrow> TextFitProps" where
  "props_fixed n = \<lparr>min_prop = n, max_prop = n, mode = Multi, forceSingleModeWidth = True\<rparr>"

definition props_single :: TextFitProps where
  "props_single = \<lparr>min_prop = 1, max_prop = 100, mode = Single, forceSingleModeWidth = True\<rparr>"

text \<open>
  The closure variables and the world on \<open>page_A\<close> with \<open>props_default\<close> when the second
  search has just accepted size 40: both bounds are 41.
\<close>

definition closure_41 :: closure where
  "closure_41 = \<lparr>props = props_default, originalWidth = Num 200, originalHeight = Num 50,
      c_pid = 1, mid = Some (Num 40), low = Num 41, high = Num 41\<rparr>"

definition world_41 :: world where
  "world_41 = \<lparr>state = \<lparr>fontSize = Some (Num 40), ready = False\<rparr>, pid = 1, idCounter = 1,
      trace = [], pending = []\<rparr>"

text \<open>The world after a first fit request on \<open>page_A\<close> with both limits 1: the fit is in flight.\<close>

definition world_in_flight :: world where
  "world_in_flight =
     \<lparr>state = \<lparr>fontSize = Some (Num 1), ready = False\<rparr>, pid = 1, idCounter = 1, trace = [],
      pending = [(Task CbPhase1, \<lparr>results = [], current = 0, isSync = False\<rparr>,
                  \<lparr>props = props_fixed 1, originalWidth = Num 200, originalHeight = Num 50,
                     c_pid = 1, mid = Some (Num 1), low = Num 1, high = Num 1\<rparr>)]\<rparr>"

text \<open>Two steps that call back at once, on a counter.\<close>

definition two_sync_steps :: "(nat, unit) task list" where
  "two_sync_steps =
     [\<lambda>s. Some (Called Null (JNum 1), s + 1), \<lambda>s. Some (Called Null (JNum 2), s + 10)]"


definition note_results :: "(nat, unit) SeriesCallback" where
  "note_results err rs s = (None, s + 1000 * length rs)"

section \<open>The sequencer\<close>

lemma series_each_stop:
  "length ts \<le> Suc (current v) \<or> truthy err \<Longrightarrow>
   series_each ts cb err r (v, s) =
     Some (series_done cb err (v\<lparr>results := results v @ [r], current := Suc (current v)\<rparr>, s))"
  by (subst series_each.simps) (simp add: Let_def)

lemma series_each_step:
  "Suc (current v) < length ts \<Longrightarrow> \<not> truthy err \<Longrightarrow>
   series_each ts cb err r (v, s) =
     (case (ts ! Suc (current v)) s of
        None \<Rightarrow> None
      | Some (out, s') \<Rightarrow>
          series_resume ts cb out (v\<lparr>results := results v @ [r], current := Suc (current v)\<rparr>, s'))"
  by (subst series_each.simps)
     (simp add: Let_def series_resume_def split: option.splits outcome.splits prod.splits)

lemma deliver_update:
  "deliver cb (v\<lparr>results := a, current := b\<rparr>) r = deliver cb v r"
  by (simp add: deliver_def split: option.splits prod.splits ending.splits)

lemma series_each_in_order:
  "current v = length (results v) \<Longrightarrow>
   series_each ts cb err r (v, s) =
     deliver cb v (if truthy err then Some (Completed err, results v @ [r], s)
                   else steps_in_order (drop (Suc (current v)) ts) (results v @ [r]) err s)"
proof (induction ts cb err r "(v, s)" arbitrary: v s rule: series_each.induct)
  case (1 ts cb err result v s)
  let ?v2 = "v\<lparr>results := results v @ [result], current := Suc (current v)\<rparr>"
  show ?case
  proof (cases "length ts \<le> Suc (current v) \<or> truthy err")
    case True
    then show ?thesis using 1(2)
      by (auto simp add: series_each_stop deliver_def)
  next
    case False
    then have lt: "Suc (current v) < length ts" and ne: "\<not> truthy err" by auto
    have dr: "drop (Suc (current v)) ts = (ts ! Suc (current v)) # drop (Suc (Suc (current v))) ts"
      using lt by (simp add: Cons_nth_drop_Suc)
    show ?thesis
    proof (cases "(ts ! Suc (current v)) s")
      case None
      then show ?thesis using lt ne dr by (simp add: series_each_step deliver_def)
    next
      case (Some a)
      obtain out s' where a: "a = (out, s')" by (cases a)
      show ?thesis
      proof (cases out)
        case (Pending k)
        then show ?thesis using lt ne dr Some a 1(2)
          by (simp add: series_each_step series_resume_def deliver_def)
      next
        case (Called e' r')
        have IH: "series_each ts cb e' r' (?v2, s') =
           deliver cb ?v2 (if truthy e' then Some (Completed e', results ?v2 @ [r'], s')
                   else steps_in_order (drop (Suc (current ?v2)) ts) (results ?v2 @ [r']) e' s')"
          using 1(1)[of "v\<lparr>results := results v @ [result]\<rparr>" ?v2 "(Called e' r', s')"
                        "Called e' r'" s' e' r'] lt ne Some a Called 1(2)
          by simp
        show ?thesis using lt ne dr Some a Called
          by (simp add: series_each_step series_resume_def IH deliver_update)
      qed
    qed
  qed
qed

lemma series_in_order:
  "series ts cb s =
     map_option (\<lambda>(k, v, s'). (k, v\<lparr>isSync := False\<rparr>, s'))
       (deliver cb \<lparr>results = [], current = 0, isSync = True\<rparr> (steps_in_order ts [] Null s))"
proof (cases ts)
  case Nil
  then show ?thesis by (simp add: series_def deliver_def)
next
  case (Cons t ts')
  show ?thesis
  proof (cases "t s")
    case None
    then show ?thesis using Cons by (simp add: series_def deliver_def)
  next
    case (Some a)
    obtain out s' where a: "a = (out, s')" by (cases a)
    show ?thesis
    proof (cases out)
      case (Pending k)
      then show ?thesis using Cons Some a by (simp add: series_def series_resume_def deliver_def)
    next
      case (Called e' r')
      then show ?thesis using Cons Some a
        by (simp add: series_def series_resume_def series_each_in_order)
    qed
  qed
qed

lemma steps_in_order_sync:
  "\<forall>t \<in> set ts. \<forall>s. \<exists>e r s'. t s = Some (Called e r, s') \<Longrightarrow>
   \<exists>e' rs' s'. steps_in_order ts rs e s = Some (Completed e', rs', s')
      \<and> (ts = [] \<longrightarrow> e' = e \<and> rs' = rs \<and> s' = s)"
proof (induction ts arbitrary: rs e s)
  case Nil
  then show ?case by simp
next
  case (Cons t ts)
  from Cons.prems obtain e1 r1 s1 where t: "t s = Some (Called e1 r1, s1)"
    by (meson list.set_intros(1))
  from Cons.prems have rest: "\<forall>t \<in> set ts. \<forall>s. \<exists>e r s'. t s = Some (Called e r, s')"
    by simp
  from Cons.IH[OF rest, of "rs @ [r1]" e1 s1] t show ?case
    by (cases "truthy e1") auto
qed

text \<open>
  C6. When every step calls back before it returns (in particular when there is no
  step), \<^verbatim>\<open>series\<close> returns to its caller with the terminal callback only scheduled:
  what is left is the timer of \<^verbatim>\<open>setTimeout(end, 0)\<close>, the state is what it would be with
  no terminal callback at all, and the callback runs, with the error and the results, when
  the timer fires. For the empty list the error is \<^verbatim>\<open>null\<close> and there are no results.
\<close>

theorem series_defers_terminal_callback:
  assumes "\<forall>t \<in> set ts. \<forall>s. \<exists>e r s'. t s = Some (Called e r, s')"
  shows "\<exists>err rs s'.
           series ts (Some f) s
             = Some (Some (Timer err), \<lparr>results = rs, current = length rs, isSync = False\<rparr>, s')
         \<and> series ts None s
             = Some (Some (Timer err), \<lparr>results = rs, current = length rs, isSync = False\<rparr>, s')
         \<and> series_end (Some f) err (\<lparr>results = rs, current = length rs, isSync = False\<rparr>, s')
             = (map_option After (fst (f err rs s')),
                \<lparr>results = rs, current = length rs, isSync = False\<rparr>, snd (f err rs s'))
         \<and> (ts = [] \<longrightarrow> err = Null \<and> rs = [] \<and> s' = s)"
proof -
  from steps_in_order_sync[OF assms, of "[]" Null s]
  obtain e' rs' s' where st: "steps_in_order ts [] Null s = Some (Completed e', rs', s')"
    and emp: "ts = [] \<longrightarrow> e' = Null \<and> rs' = [] \<and> s' = s" by blast
  have 1: "series ts (Some f) s
             = Some (Some (Timer e'), \<lparr>results = rs', current = length rs', isSync = False\<rparr>, s')"
    by (simp add: series_in_order st deliver_def series_done_def)
  have 2: "series ts None s
             = Some (Some (Timer e'), \<lparr>results = rs', current = length rs', isSync = False\<rparr>, s')"
    by (simp add: series_in_order st deliver_def series_done_def)
  have 3: "series_end (Some f) e' (\<lparr>results = rs', current = length rs', isSync = False\<rparr>, s')
             = (map_option After (fst (f e' rs' s')),
                \<lparr>results = rs', current = length rs', isSync = False\<rparr>, snd (f e' rs' s'))"
    by (simp add: series_end_def split: prod.splits)
  from 1 2 3 emp show ?thesis by blast
qed

theorem series_defers_terminal_callback_witness:
  "series two_sync_steps (Some note_results) 0
       = Some (Some (Timer Null), \<lparr>results = [JNum 1, JNum 2], current = 2, isSync = False\<rparr>, 11)
   \<and> series_end (Some note_results) Null
         (\<lparr>results = [JNum 1, JNum 2], current = 2, isSync = False\<rparr>, 11)
       = (None :: (unit, unit) waiting option,
          \<lparr>results = [JNum 1, JNum 2], current = 2, isSync = False\<rparr>, 2011)
   \<and> series ([] :: (nat, unit) task list) (Some note_results) 0
       = Some (Some (Timer Null), \<lparr>results = [], current = 0, isSync = False\<rparr>, 0)"
proof -
  have h: "\<forall>t \<in> set two_sync_steps. \<forall>s. \<exists>e r s'. t s = Some (Called e r, s')"
    by (simp add: two_sync_steps_def)
  have e: "\<forall>t \<in> set ([] :: (nat, unit) task list). \<forall>s. \<exists>e r s'. t s = Some (Called e r, s')"
    by simp
  from series_defers_terminal_callback[OF h, of note_results 0]
       series_defers_terminal_callback[OF e, of note_results 0]
  show ?thesis
    by (simp add: series_in_order deliver_def series_done_def series_end_def
                  two_sync_steps_def note_results_def)
qed



section \<open>The repeater\<close>

lemma whilst_next_truthy:
  "truthy err \<Longrightarrow> whilst_next test iterator err s = Some (Called err Undefined, s)"
  by (subst whilst_next.simps) simp








section \<open>The fit engine: its synchronous segments\<close>

lemma whilst_next_iterator1:
  "whilst_next test1 iterator1 err (c, w) =
     Some (if truthy err then (Called err Undefined, (c, w))
           else if js_le (low c) (high c) then
             (if c_pid c \<noteq> pid w then (Called (JBool True) Undefined, (c, w))
              else (Pending CbPhase1, (c\<lparr>mid := Some (parseInt_half (low c) (high c))\<rparr>,
                      setState_fontSize (Some (parseInt_half (low c) (high c))) w)))
           else (Called Null Undefined, (c, w)))"
  by (subst whilst_next.simps)
     (simp add: test1_def iterator1_def shouldCancelProcess_def Let_def whilst_next_truthy)

lemma whilst_iterator1:
  "whilst test1 iterator1 (c, w) =
     Some (if js_le (low c) (high c) then
             (if c_pid c \<noteq> pid w then (Called (JBool True) Undefined, (c, w))
              else (Pending CbPhase1, (c\<lparr>mid := Some (parseInt_half (low c) (high c))\<rparr>,
                      setState_fontSize (Some (parseInt_half (low c) (high c))) w)))
           else (Called Null Undefined, (c, w)))"
  by (simp add: whilst_def test1_def iterator1_def shouldCancelProcess_def Let_def whilst_next_truthy)

lemma whilst_next_iterator2:
  "whilst_next test2 iterator2 err (c, w) =
     Some (if truthy err then (Called err Undefined, (c, w))
           else if js_lt (low c) (high c) then
             (if c_pid c \<noteq> pid w then (Called (JBool True) Undefined, (c, w))
              else (Pending CbPhase2, (c\<lparr>mid := Some (parseInt_half (low c) (high c))\<rparr>,
                      setState_fontSize (Some (parseInt_half (low c) (high c))) w)))
           else (Called Null Undefined, (c, w)))"
  by (subst whilst_next.simps)
     (simp add: test2_def iterator2_def shouldCancelProcess_def Let_def whilst_next_truthy)

lemma whilst_iterator2:
  "whilst test2 iterator2 (c, w) =
     Some (if js_lt (low c) (high c) then
             (if c_pid c \<noteq> pid w then (Called (JBool True) Undefined, (c, w))
              else (Pending CbPhase2, (c\<lparr>mid := Some (parseInt_half (low c) (high c))\<rparr>,
                      setState_fontSize (Some (parseInt_half (low c) (high c))) w)))
           else (Called Null Undefined, (c, w)))"
  by (simp add: whilst_def test2_def iterator2_def shouldCancelProcess_def Let_def whilst_next_truthy)

lemma seg_refl: "seg s s"
  by (cases s) (simp add: seg_def)

lemma own_tests_cong: "props c' = props c \<Longrightarrow> c_pid c' = c_pid c \<Longrightarrow> own_tests c' = own_tests c"
  by (simp add: own_tests_def)

lemma TestPrimary_own: "TestPrimary (c_pid c) \<in> own_tests c"
  by (simp add: own_tests_def tests_of_def)

lemma TestSecondary_own: "\<not> single_forced (props c) \<Longrightarrow> TestSecondary (c_pid c) \<in> own_tests c"
  by (simp add: own_tests_def tests_of_def)

lemma seg_iff:
  "seg (c, w) (c', w') \<longleftrightarrow>
     props c' = props c \<and> c_pid c' = c_pid c \<and> pid w' = pid w \<and> idCounter w' = idCounter w
     \<and> pending w' = pending w \<and> (\<exists>evs. trace w' = trace w @ evs \<and> set evs \<subseteq> own_tests c)"
  by (simp add: seg_def)

lemma seg_trans: "seg s t \<Longrightarrow> seg t u \<Longrightarrow> seg s u"
proof -
  assume a: "seg s t" and b: "seg t u"
  obtain c w where s: "s = (c, w)" by (cases s)
  obtain c1 w1 where t: "t = (c1, w1)" by (cases t)
  obtain c2 w2 where u: "u = (c2, w2)" by (cases u)
  from a have a': "props c1 = props c \<and> c_pid c1 = c_pid c \<and> pid w1 = pid w \<and> idCounter w1 = idCounter w
     \<and> pending w1 = pending w \<and> (\<exists>evs. trace w1 = trace w @ evs \<and> set evs \<subseteq> own_tests c)"
    unfolding s t seg_iff .
  from b have b': "props c2 = props c1 \<and> c_pid c2 = c_pid c1 \<and> pid w2 = pid w1 \<and> idCounter w2 = idCounter w1
     \<and> pending w2 = pending w1 \<and> (\<exists>evs. trace w2 = trace w1 @ evs \<and> set evs \<subseteq> own_tests c1)"
    unfolding t u seg_iff .
  from a' obtain e1 where e1: "trace w1 = trace w @ e1" "set e1 \<subseteq> own_tests c" by blast
  from b' obtain e2 where e2: "trace w2 = trace w1 @ e2" "set e2 \<subseteq> own_tests c1" by blast
  have o: "own_tests c1 = own_tests c" using a' by (intro own_tests_cong) simp_all
  have tr: "trace w2 = trace w @ (e1 @ e2)" using e1 e2 by simp
  have sub: "set (e1 @ e2) \<subseteq> own_tests c" using e1 e2 o by simp
  have "\<exists>evs. trace w2 = trace w @ evs \<and> set evs \<subseteq> own_tests c"
    using tr sub by blast
  then show ?thesis unfolding s u seg_iff using a' b' by simp
qed

lemma seg_closure: "props c' = props c \<Longrightarrow> c_pid c' = c_pid c \<Longrightarrow> seg (c, w) (c', w)"
  by (simp add: seg_def)

lemma seg_fontSize: "props c' = props c \<Longrightarrow> c_pid c' = c_pid c \<Longrightarrow> seg (c, w) (c', setState_fontSize m w)"
  by (simp add: seg_def setState_fontSize_def)

lemma seg_ready: "seg (c, w) (c, setState_ready b w)"
  by (simp add: seg_def setState_ready_def)

lemma seg_testPrimary: "testPrimary el (c, w) = (b, w') \<Longrightarrow> seg (c, w) (c, w')"
  by (auto simp: seg_def testPrimary_def TestPrimary_own)

lemma seg_testSecondary:
  "\<not> single_forced (props c) \<Longrightarrow> testSecondary el (c, w) = (b, w') \<Longrightarrow> seg (c, w) (c, w')"
  by (auto simp: seg_def testSecondary_def TestSecondary_own)

lemma seg_props: "seg s t \<Longrightarrow> props (fst t) = props (fst s)"
  by (cases s, cases t) (simp add: seg_def)

lemma post_seg: "seg s t \<Longrightarrow> post t v r \<Longrightarrow> post s v r"
  unfolding post_def using seg_trans[of s t] seg_props[of s t] by auto

lemma length_tasks [simp]: "length (tasks el) = 3"
  by (simp add: tasks_def)

lemma done_final:
  "series_done (Some final_cb) err (v, (c, w)) =
     (if isSync v then (Some (Timer err), v, (c, w))
      else if truthy err \<or> c_pid c \<noteq> pid w then (None, v, (c, w))
      else (Some (After CbReady), v, (c, setState_ready True w)))"
  by (simp add: series_done_def series_end_def final_cb_def shouldCancelProcess_def)

lemma each_last:
  "2 \<le> current v \<or> truthy err \<Longrightarrow>
   series_each (tasks el) (Some final_cb) err r (v, (c, w)) =
     Some (if isSync v
           then (Some (Timer err), v\<lparr>results := results v @ [r], current := Suc (current v)\<rparr>, (c, w))
           else if truthy err \<or> c_pid c \<noteq> pid w
           then (None, v\<lparr>results := results v @ [r], current := Suc (current v)\<rparr>, (c, w))
           else (Some (After CbReady), v\<lparr>results := results v @ [r], current := Suc (current v)\<rparr>,
                 (c, setState_ready True w)))"
  by (subst series_each_stop) (auto simp add: done_final)

lemma step3_eq:
  "step3 (c, w) =
     Some (if c_pid c \<noteq> pid w then (Called (JBool True) Undefined, (c\<lparr>mid := Some (step3_mid c)\<rparr>, w))
           else (Pending CbFinal, (c\<lparr>mid := Some (step3_mid c)\<rparr>, setState_fontSize (Some (step3_mid c)) w)))"
  by (simp add: step3_def step3_mid_def Let_def shouldCancelProcess_def)

lemma each_step3:
  "current v = 1 \<Longrightarrow> \<not> truthy err \<Longrightarrow>
   series_each (tasks el) (Some final_cb) err r (v, (c, w)) =
     Some (if c_pid c \<noteq> pid w
           then (if isSync v then Some (Timer (JBool True)) else None,
                 v\<lparr>results := results v @ [r, Undefined], current := 3\<rparr>,
                 (c\<lparr>mid := Some (step3_mid c)\<rparr>, w))
           else (Some (Task CbFinal), v\<lparr>results := results v @ [r], current := 2\<rparr>,
                 (c\<lparr>mid := Some (step3_mid c)\<rparr>, setState_fontSize (Some (step3_mid c)) w)))"
  by (simp add: series_each_step tasks_def step3_eq series_resume_def each_last[unfolded tasks_def])

lemma post_last:
  "2 \<le> current v \<or> truthy err \<Longrightarrow>
   post (c, w) v (series_each (tasks el) (Some final_cb) err r (v, (c, w)))"
  by (simp add: each_last post_def seg_refl seg_ready)

lemma post_ok_last:
  "2 \<le> current v \<or> truthy err \<Longrightarrow> \<not> isSync v \<Longrightarrow> in_range c \<Longrightarrow>
   post_ok (series_each (tasks el) (Some final_cb) err r (v, (c, w)))"
  by (simp add: each_last post_ok_def)

lemma post_ok_truthy:
  "truthy err \<Longrightarrow> \<not> isSync v \<Longrightarrow>
   post_ok (series_each (tasks el) (Some final_cb) err r (v, (c, w)))"
  by (simp add: each_last post_ok_def)

lemma post_step3:
  "current v = 1 \<Longrightarrow>
   post (c, w) v (series_each (tasks el) (Some final_cb) err r (v, (c, w)))"
proof -
  assume a: "current v = 1"
  show ?thesis
  proof (cases "truthy err")
    case True
    with a show ?thesis by (simp add: post_last)
  next
    case False
    with a show ?thesis
      by (simp add: each_step3 post_def seg_closure seg_fontSize)
  qed
qed

lemma step3_mid_range:
  "valid (props c) \<Longrightarrow> low c = Num l \<Longrightarrow> high c = Num h \<Longrightarrow>
   step3_mid c = Num (limits (props c) l h)
   \<and> min_prop (props c) \<le> limits (props c) l h \<and> limits (props c) l h \<le> max_prop (props c)"
  by (auto simp add: step3_mid_def limits_def valid_def or_default_def)

lemma post_ok_step3:
  assumes "current v = 1" and "\<not> isSync v \<or> (\<not> truthy err \<and> c_pid c = pid w)"
    and "valid (props c)" and "low c = Num l" and "high c = Num h"
  shows "post_ok (series_each (tasks el) (Some final_cb) err r (v, (c, w)))"
proof (cases "truthy err")
  case True
  with assms(2) show ?thesis by (simp add: post_ok_truthy)
next
  case False
  with assms step3_mid_range[of c l h] show ?thesis
    by (auto simp add: each_step3 post_ok_def in_range_def)
qed

lemma each_step2:
  "current v = 0 \<Longrightarrow> \<not> truthy err \<Longrightarrow>
   series_each (tasks el) (Some final_cb) err r (v, (c, w)) =
     (case step2 el (c, w) of
        None \<Rightarrow> None
      | Some (out, s') \<Rightarrow>
          series_resume (tasks el) (Some final_cb) out (v\<lparr>results := results v @ [r], current := 1\<rparr>, s'))"
  by (simp add: series_each_step tasks_def split: option.splits prod.splits)

lemma resume_called:
  "series_resume ts cb (Called e r) (v, s) = series_each ts cb e r (v, s)"
  by (simp add: series_resume_def)

lemma resume_pending:
  "series_resume ts cb (Pending k) (v, s) = Some (Some (Task k), v, s)"
  by (simp add: series_resume_def)

lemma step2_skip:
  "single_forced (props c) \<Longrightarrow> step2 el (c, w) = Some (Called Null Undefined, (c, w))"
  by (simp add: step2_def single_forced_def)

lemma step2_test:
  "\<not> single_forced (props c) \<Longrightarrow> testSecondary el (c, w) = (fits, w') \<Longrightarrow>
   step2 el (c, w) =
     (if fits then Some (Called Null Undefined, (c, w'))
      else whilst test2 iterator2
             (c\<lparr>low := Num (or_default (min_prop (props c)) 1), high := toNumber (mid c)\<rparr>, w'))"
  by (auto simp add: step2_def single_forced_def)

lemma post_step2:
  assumes cur: "current v = 0"
  shows "post (c, w) v (series_each (tasks el) (Some final_cb) err r (v, (c, w)))"
proof (cases "truthy err")
  case True
  then show ?thesis by (simp add: post_last)
next
  case False
  let ?v2 = "v\<lparr>results := results v @ [r], current := 1\<rparr>"
  have v2: "current ?v2 = 1" "isSync ?v2 = isSync v" by simp_all
  have lift: "post s ?v2 x \<Longrightarrow> post s v x" for s x
    by (simp add: post_def)
  show ?thesis
  proof (cases "single_forced (props c)")
    case True
    have "post (c, w) ?v2 (series_each (tasks el) (Some final_cb) Null Undefined (?v2, (c, w)))"
      by (rule post_step3) simp
    then show ?thesis using cur False True
      by (simp add: each_step2 step2_skip resume_called lift)
  next
    case nsf: False
    obtain fits w' where ts: "testSecondary el (c, w) = (fits, w')"
      by (cases "testSecondary el (c, w)")
    have s1: "seg (c, w) (c, w')" by (rule seg_testSecondary[OF nsf ts])
    show ?thesis
    proof (cases fits)
      case True
      have "post (c, w') ?v2 (series_each (tasks el) (Some final_cb) Null Undefined (?v2, (c, w')))"
        by (rule post_step3) simp
      then have "post (c, w) v (series_each (tasks el) (Some final_cb) Null Undefined (?v2, (c, w')))"
        using s1 by (blast intro: post_seg lift)
      then show ?thesis using cur False True
        by (simp add: each_step2 step2_test[OF nsf ts] resume_called)
    next
      case nf: False
      let ?c2 = "c\<lparr>low := Num (or_default (min_prop (props c)) 1), high := toNumber (mid c)\<rparr>"
      have s2: "seg (c, w) (?c2, w')"
        using seg_trans[OF s1 seg_closure[of ?c2 c w']] by simp
      show ?thesis
      proof (cases "js_lt (low ?c2) (high ?c2)")
        case lt: True
        show ?thesis
        proof (cases "c_pid c = pid w'")
          case True
          let ?c3 = "?c2\<lparr>mid := Some (parseInt_half (low ?c2) (high ?c2))\<rparr>"
          let ?w3 = "setState_fontSize (Some (parseInt_half (low ?c2) (high ?c2))) w'"
          have "seg (c, w) (?c3, ?w3)"
            using seg_trans[OF s2 seg_fontSize[of ?c3 ?c2 w']] by simp
          then have "post (c, w) v (Some (Some (Task CbPhase2), ?v2, (?c3, ?w3)))"
            using nsf by (simp add: post_def)
          then show ?thesis using cur False nf lt True
            by (simp add: each_step2 step2_test[OF nsf ts] whilst_iterator2 resume_pending)
        next
          case stale: False
          have "post (?c2, w') ?v2 (series_each (tasks el) (Some final_cb) (JBool True) Undefined (?v2, (?c2, w')))"
            by (rule post_last) simp
          then have "post (c, w) v (series_each (tasks el) (Some final_cb) (JBool True) Undefined (?v2, (?c2, w')))"
            using s2 by (blast intro: post_seg lift)
          then show ?thesis using cur False nf lt stale
            by (simp add: each_step2 step2_test[OF nsf ts] whilst_iterator2 resume_called)
        qed
      next
        case nlt: False
        have "post (?c2, w') ?v2 (series_each (tasks el) (Some final_cb) Null Undefined (?v2, (?c2, w')))"
          by (rule post_step3) simp
        then have "post (c, w) v (series_each (tasks el) (Some final_cb) Null Undefined (?v2, (?c2, w')))"
          using s2 by (blast intro: post_seg lift)
        then show ?thesis using cur False nf nlt
          by (simp add: each_step2 step2_test[OF nsf ts] whilst_iterator2 resume_called)
      qed
    qed
  qed
qed

lemma post_any:
  "post (c, w) v (series_each (tasks el) (Some final_cb) err r (v, (c, w)))"
proof -
  consider "current v = 0" | "current v = 1" | "2 \<le> current v" by linarith
  then show ?thesis
    by cases (simp_all add: post_step2 post_step3 post_last)
qed


lemma testSecondary_pid: "testSecondary el (c, w) = (fits, w') \<Longrightarrow> pid w' = pid w"
  by (auto simp: testSecondary_def)


lemma post_ok_step2:
  assumes cur: "current v = 0"
    and live: "\<not> isSync v \<or> (\<not> truthy err \<and> c_pid c = pid w)"
    and val: "valid (props c)" and sea: "searching c"
  shows "post_ok (series_each (tasks el) (Some final_cb) err r (v, (c, w)))"
proof (cases "truthy err")
  case True
  with live show ?thesis by (simp add: post_ok_truthy)
next
  case False
  let ?v2 = "v\<lparr>results := results v @ [r], current := 1\<rparr>"
  from sea obtain l h m where lhm: "low c = Num l" "high c = Num h" "mid c = Some (Num m)"
    by (auto simp: searching_def)
  show ?thesis
  proof (cases "single_forced (props c)")
    case True
    have "post_ok (series_each (tasks el) (Some final_cb) Null Undefined (?v2, (c, w)))"
      using live val lhm by (intro post_ok_step3[of _ _ _ _ l h]) auto
    then show ?thesis using cur False True
      by (simp add: each_step2 step2_skip resume_called)
  next
    case nsf: False
    obtain fits w' where ts: "testSecondary el (c, w) = (fits, w')"
      by (cases "testSecondary el (c, w)")
    have pw: "pid w' = pid w" by (rule testSecondary_pid[OF ts])
    show ?thesis
    proof (cases fits)
      case True
      have "post_ok (series_each (tasks el) (Some final_cb) Null Undefined (?v2, (c, w')))"
        using live val lhm pw by (intro post_ok_step3[of _ _ _ _ l h]) auto
      then show ?thesis using cur False True
        by (simp add: each_step2 step2_test[OF nsf ts] resume_called)
    next
      case nf: False
      let ?c2 = "c\<lparr>low := Num (or_default (min_prop (props c)) 1), high := toNumber (mid c)\<rparr>"
      have c2: "low ?c2 = Num (or_default (min_prop (props c)) 1)" "high ?c2 = Num m"
        "props ?c2 = props c" "c_pid ?c2 = c_pid c"
        using lhm by simp_all
      show ?thesis
      proof (cases "js_lt (low ?c2) (high ?c2)")
        case lt: True
        show ?thesis
        proof (cases "c_pid c = pid w'")
          case True
          let ?c3 = "?c2\<lparr>mid := Some (parseInt_half (low ?c2) (high ?c2))\<rparr>"
          let ?w3 = "setState_fontSize (Some (parseInt_half (low ?c2) (high ?c2))) w'"
          have "searching ?c3" using lhm by (simp add: searching_def)
          then have "post_ok (Some (Some (Task CbPhase2), ?v2, (?c3, ?w3)))"
            by (simp add: post_ok_def)
          then show ?thesis using cur False nf lt True
            by (simp add: each_step2 step2_test[OF nsf ts] whilst_iterator2 resume_pending)
        next
          case stale: False
          with live pw have "\<not> isSync ?v2" by auto
          then have "post_ok (series_each (tasks el) (Some final_cb) (JBool True) Undefined (?v2, (?c2, w')))"
            by (intro post_ok_truthy) simp_all
          then show ?thesis using cur False nf lt stale
            by (simp add: each_step2 step2_test[OF nsf ts] whilst_iterator2 resume_called)
        qed
      next
        case nlt: False
        have "post_ok (series_each (tasks el) (Some final_cb) Null Undefined (?v2, (?c2, w')))"
          using live val c2 pw
          by (intro post_ok_step3[of _ _ _ _ "or_default (min_prop (props c)) 1" m]) auto
        then show ?thesis using cur False nf nlt
          by (simp add: each_step2 step2_test[OF nsf ts] whilst_iterator2 resume_called)
      qed
    qed
  qed
qed

section \<open>The fit engine: running a waiting callback\<close>

lemma own_tests_emits: "k \<noteq> After CbReady \<Longrightarrow> own_tests c \<subseteq> emits k c"
  by (auto simp: emits_def own_tests_def tests_of_def)

lemma suspend_fired:
  assumes r: "r = Some (k', v', (c', w'))"
    and sg: "seg (c1, w1) (c', w')"
    and sy: "isSync v' = isSync v"
    and kind: "single_forced (props c) \<and> k \<noteq> Task CbPhase2 \<longrightarrow> k' \<noteq> Some (Task CbPhase2)"
    and fr: "props c1 = props c" "c_pid c1 = c_pid c" "pid w1 = pid w" "idCounter w1 = idCounter w"
            "pending w1 = pending w" "trace w1 = trace w @ pre" "set pre \<subseteq> emits k c"
    and nr: "k \<noteq> After CbReady"
    and okk: "valid (props c) \<and> ok (k, v, c) \<and> \<not> isSync v \<longrightarrow> post_ok r"
  shows "fired (k, v, c) w (suspend r)"
proof -
  from sg obtain suf where s: "props c' = props c1" "c_pid c' = c_pid c1" "pid w' = pid w1"
      "idCounter w' = idCounter w1" "pending w' = pending w1" "trace w' = trace w1 @ suf"
      "set suf \<subseteq> own_tests c1"
    unfolding seg_iff by blast
  have o: "own_tests c1 = own_tests c" using fr by (intro own_tests_cong) simp_all
  have ev: "trace w' = trace w @ (pre @ suf)" "set (pre @ suf) \<subseteq> emits k c"
    using s fr o own_tests_emits[OF nr, of c] by auto
  show ?thesis
  proof (cases k')
    case None
    then have "suspend r = Some w'" using r by (simp add: suspend_def)
    moreover have "pending w' = pending w @ []" using s fr by simp
    ultimately show ?thesis unfolding fired_def using s fr ev
      by (intro exI[of _ w'] exI[of _ "pre @ suf"] exI[of _ "[]"]) simp
  next
    case (Some k'')
    let ?w = "w'\<lparr>pending := pending w' @ [(k'', v', c')]\<rparr>"
    have su: "suspend r = Some ?w" using r Some by (simp add: suspend_def)
    have fo: "follows (k, v, c) (k'', v', c')"
      using s fr sy kind okk r Some by (auto simp: follows_def post_ok_def)
    have "pending ?w = pending w @ [(k'', v', c')]" using s fr by simp
    then show ?thesis unfolding fired_def using su s fr ev fo
      by (intro exI[of _ ?w] exI[of _ "pre @ suf"] exI[of _ "[(k'', v', c')]"]) simp
  qed
qed

lemma suspend_fired_post:
  assumes p: "post (c1, w1) v r"
    and fr: "props c1 = props c" "c_pid c1 = c_pid c" "pid w1 = pid w" "idCounter w1 = idCounter w"
            "pending w1 = pending w" "trace w1 = trace w @ pre" "set pre \<subseteq> emits k c"
    and nr: "k \<noteq> After CbReady"
    and okk: "valid (props c) \<and> ok (k, v, c) \<and> \<not> isSync v \<longrightarrow> post_ok r"
  shows "fired (k, v, c) w (suspend r)"
proof -
  from p obtain k' v' s' where r: "r = Some (k', v', s')" and sg: "seg (c1, w1) s'"
    and sy: "isSync v' = isSync v" and kd: "single_forced (props c1) \<longrightarrow> k' \<noteq> Some (Task CbPhase2)"
    unfolding post_def by auto
  obtain c' w' where s': "s' = (c', w')" by (cases s')
  show ?thesis
    using suspend_fired[OF r[unfolded s'] sg[unfolded s'] sy _ fr nr okk] kd fr(1) by simp
qed


lemma callback1_stale:
  "c_pid c \<noteq> pid w \<Longrightarrow> callback1 el (c, w) = (JBool True, (c, w))"
  by (simp add: callback1_def shouldCancelProcess_def)

lemma callback1_live:
  "c_pid c = pid w \<Longrightarrow> testPrimary el (c, w) = (fits, w1) \<Longrightarrow>
   callback1 el (c, w) =
     (Undefined,
      (if fits then c\<lparr>low := js_add (toNumber (mid c)) 1\<rparr>
       else c\<lparr>high := js_add (toNumber (mid c)) (- 1)\<rparr>), w1)"
  by (simp add: callback1_def shouldCancelProcess_def)

lemma resume_phase1:
  "resume el (Task CbPhase1, v, c) w =
     (case callback1 el (c, w) of (err, s) \<Rightarrow>
        (case whilst_next test1 iterator1 err s of
           None \<Rightarrow> None
         | Some (out, s') \<Rightarrow> suspend (series_resume (tasks el) (Some final_cb) out (v, s'))))"
  by (simp add: resume_def)

lemma fired_phase1: "fired (Task CbPhase1, v, c) w (resume el (Task CbPhase1, v, c) w)"
proof (cases "c_pid c = pid w")
  case False
  let ?r = "series_each (tasks el) (Some final_cb) (JBool True) Undefined (v, (c, w))"
  have eq: "resume el (Task CbPhase1, v, c) w = suspend ?r"
    using False by (simp add: resume_phase1 callback1_stale whilst_next_iterator1 resume_called)
  have p: "post (c, w) v ?r" by (rule post_last) simp
  have okk: "valid (props c) \<and> ok (Task CbPhase1, v, c) \<and> \<not> isSync v \<longrightarrow> post_ok ?r"
    by (auto intro: post_ok_truthy)
  show ?thesis unfolding eq
    by (rule suspend_fired_post[where pre = "[]", OF p _ _ _ _ _ _ _ _ okk]) simp_all
next
  case True
  obtain fits w1 where tp: "testPrimary el (c, w) = (fits, w1)"
    by (cases "testPrimary el (c, w)")
  let ?c1 = "if fits then c\<lparr>low := js_add (toNumber (mid c)) 1\<rparr>
             else c\<lparr>high := js_add (toNumber (mid c)) (- 1)\<rparr>"
  have w1: "pid w1 = pid w" "idCounter w1 = idCounter w" "pending w1 = pending w"
    "trace w1 = trace w @ [TestPrimary (c_pid c)]"
    using tp by (auto simp: testPrimary_def)
  have c1: "props ?c1 = props c" "c_pid ?c1 = c_pid c" by simp_all
  have em: "set [TestPrimary (c_pid c)] \<subseteq> emits (Task CbPhase1) c"
    using TestPrimary_own[of c] by (simp add: emits_def)
  show ?thesis
  proof (cases "js_le (low ?c1) (high ?c1)")
    case go: True
    let ?c2 = "?c1\<lparr>mid := Some (parseInt_half (low ?c1) (high ?c1))\<rparr>"
    let ?w2 = "setState_fontSize (Some (parseInt_half (low ?c1) (high ?c1))) w1"
    let ?r = "Some (Some (Task CbPhase1), v, (?c2, ?w2))"
    have eq: "resume el (Task CbPhase1, v, c) w = suspend ?r"
      using True go w1(1)
      by (simp add: resume_phase1 callback1_live[OF True tp] whilst_next_iterator1 resume_pending
               del: if_split cong: if_cong)
    have sg: "seg (?c1, w1) (?c2, ?w2)" by (rule seg_fontSize) simp_all
    have okk: "valid (props c) \<and> ok (Task CbPhase1, v, c) \<and> \<not> isSync v \<longrightarrow> post_ok ?r"
      by (auto simp: post_ok_def searching_def)
    show ?thesis unfolding eq
      by (rule suspend_fired[OF refl sg refl _ c1 w1 em _ okk]) simp_all
  next
    case stop: False
    let ?r = "series_each (tasks el) (Some final_cb) Null Undefined (v, (?c1, w1))"
    have eq: "resume el (Task CbPhase1, v, c) w = suspend ?r"
      using True stop
      by (simp add: resume_phase1 callback1_live[OF True tp] whilst_next_iterator1 resume_called
               del: if_split cong: if_cong)
    have p: "post (?c1, w1) v ?r" by (rule post_any)
    have okk: "valid (props c) \<and> ok (Task CbPhase1, v, c) \<and> \<not> isSync v \<longrightarrow> post_ok ?r"
    proof (intro impI, elim conjE)
      assume va: "valid (props c)" and ok': "ok (Task CbPhase1, v, c)" and ns: "\<not> isSync v"
          from ok' have cur: "current v = 0" and sea: "searching c" by simp_all
          have sea1: "searching ?c1" using sea by (auto simp: searching_def)
          show "post_ok ?r"
            using va ns sea1 cur by (intro post_ok_step2) simp_all
    qed
    show ?thesis unfolding eq
      by (rule suspend_fired_post[OF p c1 w1 em _ okk]) simp
  qed
qed

lemma callback2_stale:
  "c_pid c \<noteq> pid w \<Longrightarrow> callback2 el (c, w) = (JBool True, (c, w))"
  by (simp add: callback2_def shouldCancelProcess_def)

lemma callback2_live:
  "c_pid c = pid w \<Longrightarrow> testSecondary el (c, w) = (fits, w1) \<Longrightarrow>
   callback2 el (c, w) =
     (Undefined,
      (if fits then c\<lparr>low := js_add (toNumber (mid c)) 1\<rparr>
       else c\<lparr>high := js_add (toNumber (mid c)) (- 1)\<rparr>), w1)"
  by (simp add: callback2_def shouldCancelProcess_def)

lemma resume_phase2:
  "resume el (Task CbPhase2, v, c) w =
     (case callback2 el (c, w) of (err, s) \<Rightarrow>
        (case whilst_next test2 iterator2 err s of
           None \<Rightarrow> None
         | Some (out, s') \<Rightarrow> suspend (series_resume (tasks el) (Some final_cb) out (v, s'))))"
  by (simp add: resume_def)

lemma fired_phase2: "fired (Task CbPhase2, v, c) w (resume el (Task CbPhase2, v, c) w)"
proof (cases "c_pid c = pid w")
  case False
  let ?r = "series_each (tasks el) (Some final_cb) (JBool True) Undefined (v, (c, w))"
  have eq: "resume el (Task CbPhase2, v, c) w = suspend ?r"
    using False by (simp add: resume_phase2 callback2_stale whilst_next_iterator2 resume_called)
  have p: "post (c, w) v ?r" by (rule post_last) simp
  have okk: "valid (props c) \<and> ok (Task CbPhase2, v, c) \<and> \<not> isSync v \<longrightarrow> post_ok ?r"
    by (auto intro: post_ok_truthy)
  show ?thesis unfolding eq
    by (rule suspend_fired_post[where pre = "[]", OF p _ _ _ _ _ _ _ _ okk]) simp_all
next
  case True
  obtain fits w1 where tp: "testSecondary el (c, w) = (fits, w1)"
    by (cases "testSecondary el (c, w)")
  let ?c1 = "if fits then c\<lparr>low := js_add (toNumber (mid c)) 1\<rparr>
             else c\<lparr>high := js_add (toNumber (mid c)) (- 1)\<rparr>"
  have w1: "pid w1 = pid w" "idCounter w1 = idCounter w" "pending w1 = pending w"
    "trace w1 = trace w @ [TestSecondary (c_pid c)]"
    using tp by (auto simp: testSecondary_def)
  have c1: "props ?c1 = props c" "c_pid ?c1 = c_pid c" by simp_all
  have em: "set [TestSecondary (c_pid c)] \<subseteq> emits (Task CbPhase2) c"
    by (simp add: emits_def)
  show ?thesis
  proof (cases "js_lt (low ?c1) (high ?c1)")
    case go: True
    let ?c2 = "?c1\<lparr>mid := Some (parseInt_half (low ?c1) (high ?c1))\<rparr>"
    let ?w2 = "setState_fontSize (Some (parseInt_half (low ?c1) (high ?c1))) w1"
    let ?r = "Some (Some (Task CbPhase2), v, (?c2, ?w2))"
    have eq: "resume el (Task CbPhase2, v, c) w = suspend ?r"
      using True go w1(1)
      by (simp add: resume_phase2 callback2_live[OF True tp] whilst_next_iterator2 resume_pending
               del: if_split cong: if_cong)
    have sg: "seg (?c1, w1) (?c2, ?w2)" by (rule seg_fontSize) simp_all
    have okk: "valid (props c) \<and> ok (Task CbPhase2, v, c) \<and> \<not> isSync v \<longrightarrow> post_ok ?r"
      by (auto simp: post_ok_def searching_def)
    show ?thesis unfolding eq
      by (rule suspend_fired[OF refl sg refl _ c1 w1 em _ okk]) simp_all
  next
    case stop: False
    let ?r = "series_each (tasks el) (Some final_cb) Null Undefined (v, (?c1, w1))"
    have eq: "resume el (Task CbPhase2, v, c) w = suspend ?r"
      using True stop
      by (simp add: resume_phase2 callback2_live[OF True tp] whilst_next_iterator2 resume_called
               del: if_split cong: if_cong)
    have p: "post (?c1, w1) v ?r" by (rule post_any)
    have okk: "valid (props c) \<and> ok (Task CbPhase2, v, c) \<and> \<not> isSync v \<longrightarrow> post_ok ?r"
    proof (intro impI, elim conjE)
      assume va: "valid (props c)" and ok': "ok (Task CbPhase2, v, c)" and ns: "\<not> isSync v"
          from ok' have cur: "current v = 1" and sea: "searching c" by simp_all
          from sea obtain l h m where lhm: "low c = Num l" "high c = Num h" "mid c = Some (Num m)"
            by (auto simp: searching_def)
          have "\<exists>l1 h1. low ?c1 = Num l1 \<and> high ?c1 = Num h1" using lhm by (cases fits) simp_all
          then obtain l1 h1 where lh1: "low ?c1 = Num l1" "high ?c1 = Num h1" by blast
          show "post_ok ?r"
            using va ns cur lh1 by (intro post_ok_step3[of _ _ _ _ l1 h1]) simp_all
    qed
    show ?thesis unfolding eq
      by (rule suspend_fired_post[OF p c1 w1 em _ okk]) simp
  qed
qed

lemma fired_final: "fired (Task CbFinal, v, c) w (resume el (Task CbFinal, v, c) w)"
proof -
  let ?r = "series_each (tasks el) (Some final_cb) Null Undefined (v, (c, w))"
  have eq: "resume el (Task CbFinal, v, c) w = suspend ?r" by (simp add: resume_def)
  have p: "post (c, w) v ?r" by (rule post_any)
  have okk: "valid (props c) \<and> ok (Task CbFinal, v, c) \<and> \<not> isSync v \<longrightarrow> post_ok ?r"
    by (auto intro: post_ok_last)
  show ?thesis unfolding eq
    by (rule suspend_fired_post[where pre = "[]", OF p _ _ _ _ _ _ _ _ okk]) simp_all
qed

lemma end_final:
  "series_end (Some final_cb) err (v, (c, w)) =
     (if truthy err \<or> c_pid c \<noteq> pid w then (None, v, (c, w))
      else (Some (After CbReady), v, (c, setState_ready True w)))"
  by (simp add: series_end_def final_cb_def shouldCancelProcess_def)

lemma fired_timer: "fired (Timer e, v, c) w (resume el (Timer e, v, c) w)"
proof -
  let ?r = "Some (series_end (Some final_cb) e (v, (c, w)))"
  have eq: "resume el (Timer e, v, c) w = suspend ?r" by (simp add: resume_def)
  have okk: "valid (props c) \<and> ok (Timer e, v, c) \<and> \<not> isSync v \<longrightarrow> post_ok ?r" by simp
  show ?thesis
  proof (cases "truthy e \<or> c_pid c \<noteq> pid w")
    case True
    then have r: "?r = Some (None, v, (c, w))" by (simp add: end_final)
    show ?thesis unfolding eq
      by (rule suspend_fired[where pre = "[]", OF r seg_refl refl _ _ _ _ _ _ _ _ _ okk]) simp_all
  next
    case False
    then have r: "?r = Some (Some (After CbReady), v, (c, setState_ready True w))"
      by (simp add: end_final)
    show ?thesis unfolding eq
      by (rule suspend_fired[where pre = "[]", OF r seg_ready refl _ _ _ _ _ _ _ _ _ okk]) simp_all
  qed
qed

lemma fired_ready: "fired (After CbReady, v, c) w (resume el (After CbReady, v, c) w)"
proof -
  let ?w = "w\<lparr>trace := trace w @ [OnReady (c_pid c) (mid c)]\<rparr>"
  have eq: "resume el (After CbReady, v, c) w = Some ?w"
    by (simp add: resume_def callback_ready_def)
  show ?thesis unfolding eq fired_def
    by (intro exI[of _ ?w] exI[of _ "[OnReady (c_pid c) (mid c)]"] exI[of _ "[]"])
       (simp add: emits_def)
qed

lemma fired_resume: "fired x w (resume el x w)"
proof -
  obtain k v c where x: "x = (k, v, c)" by (cases x)
  show ?thesis
  proof (cases k)
    case (Task t)
    then show ?thesis using x fired_phase1 fired_phase2 fired_final by (cases t) simp_all
  next
    case (Timer e)
    then show ?thesis using x fired_timer by simp
  next
    case (After j)
    then show ?thesis using x fired_ready by (cases j) simp
  qed
qed

lemma fire_fired:
  "i < length (pending w) \<Longrightarrow>
   fired (pending w ! i) (w\<lparr>pending := take i (pending w) @ drop (Suc i) (pending w)\<rparr>) (fire i el w)"
  by (simp add: fire_def fired_resume)

lemma fire_idle: "\<not> i < length (pending w) \<Longrightarrow> fire i el w = Some w"
  by (simp add: fire_def)

lemma series_tasks:
  "series (tasks el) (Some final_cb) (c, w) =
     map_option (\<lambda>(k, v, s'). (k, v\<lparr>isSync := False\<rparr>, s'))
       (case whilst test1 iterator1 (c, w) of
          None \<Rightarrow> None
        | Some (out, s') \<Rightarrow>
            series_resume (tasks el) (Some final_cb) out
              (\<lparr>results = [], current = 0, isSync = True\<rparr>, s'))"
  by (simp add: series_def) (simp add: tasks_def step1_def)

lemma process_turned_away:
  "\<not> hasRefs el \<Longrightarrow> process el p w = Some w"
  "hasRefs el \<Longrightarrow> js_le (innerHeight el) (Num 0) \<or> isNaN (innerHeight el) \<Longrightarrow>
     process el p w = Some (w\<lparr>trace := trace w @ [Warn ''Can not process element without height. Make sure the element is displayed and has a static height.'']\<rparr>)"
  "hasRefs el \<Longrightarrow> \<not> (js_le (innerHeight el) (Num 0) \<or> isNaN (innerHeight el)) \<Longrightarrow>
     js_le (innerWidth el) (Num 0) \<or> isNaN (innerWidth el) \<Longrightarrow>
     process el p w = Some (w\<lparr>trace := trace w @ [Warn ''Can not process element without width. Make sure the element is displayed and has a static width.'']\<rparr>)"
  by (simp_all add: process_def)




lemma process_accepted:
  "accepted el \<Longrightarrow>
   process el p w = suspend (series (tasks el) (Some final_cb) (closure0 el p (Suc (idCounter w)), world1 w))"
  by (simp add: process_def accepted_def uniqueId_def closure0_def world1_def Let_def)

section \<open>The fit engine: a fit request\<close>

lemma valid_bounds:
  "valid p \<Longrightarrow> js_le (Num (or_default (min_prop p) 1)) (Num (or_default (max_prop p) 100))"
  by (auto simp: valid_def or_default_def)

lemma world1_simps:
  "pid (world1 w) = Suc (idCounter w)" "idCounter (world1 w) = Suc (idCounter w)"
  "trace (world1 w) = trace w" "pending (world1 w) = pending w"
  by (simp_all add: world1_def setState_ready_def)

lemma closure0_simps:
  "props (closure0 el p q) = p" "c_pid (closure0 el p q) = q"
  "low (closure0 el p q) = Num (or_default (min_prop p) 1)"
  "high (closure0 el p q) = Num (or_default (max_prop p) 100)"
  by (simp_all add: closure0_def)

lemma process_accepted_started:
  assumes True: "accepted el"
  shows "\<exists>w' evs ks. process el p w = Some w' \<and> trace w' = trace w @ evs
           \<and> pending w' = pending w @ ks
           \<and> pid w' = Suc (idCounter w) \<and> idCounter w' = Suc (idCounter w)
           \<and> set evs \<subseteq> tests_of p (Suc (idCounter w)) \<and> length ks \<le> 1
           \<and> (\<forall>x \<in> set ks. born p (Suc (idCounter w)) x)"
proof -
  let ?q = "Suc (idCounter w)"
  let ?c0 = "closure0 el p ?q"
  let ?w1 = "world1 w"
  let ?v0 = "\<lparr>results = [], current = 0, isSync = True\<rparr>"
  let ?f = "(\<lambda>(k, v, s'). (k, v\<lparr>isSync := False\<rparr>, s')) ::
      (step_k, final_k) waiting option \<times> series_vars \<times> closure \<times> world
        \<Rightarrow> (step_k, final_k) waiting option \<times> series_vars \<times> closure \<times> world"
  have fin: "\<exists>k v' c' w'.
      series (tasks el) (Some final_cb) (?c0, ?w1) = Some (k, v', (c', w'))
      \<and> seg (?c0, ?w1) (c', w') \<and> \<not> isSync v'
      \<and> (single_forced p \<longrightarrow> k \<noteq> Some (Task CbPhase2))
      \<and> (valid p \<longrightarrow> (\<forall>k'. k = Some k' \<longrightarrow> ok (k', v', c')))"
  proof (cases "js_le (low ?c0) (high ?c0)")
    case go: True
    let ?m = "parseInt_half (low ?c0) (high ?c0)"
    let ?c1 = "?c0\<lparr>mid := Some ?m\<rparr>"
    let ?w2 = "setState_fontSize (Some ?m) ?w1"
    have eq: "series (tasks el) (Some final_cb) (?c0, ?w1)
                = Some (Some (Task CbPhase1), ?v0\<lparr>isSync := False\<rparr>, (?c1, ?w2))"
      using go by (simp add: series_tasks whilst_iterator1 resume_pending closure0_simps world1_simps)
    have sg: "seg (?c0, ?w1) (?c1, ?w2)" by (rule seg_fontSize) simp_all
    have "searching ?c1" by (simp add: searching_def closure0_simps)
    then show ?thesis using eq sg by simp
  next
    case stop: False
    let ?r = "series_each (tasks el) (Some final_cb) Null Undefined (?v0, (?c0, ?w1))"
    have eq: "series (tasks el) (Some final_cb) (?c0, ?w1) = map_option ?f ?r"
      using stop by (simp add: series_tasks whilst_iterator1 resume_called)
    have "post (?c0, ?w1) ?v0 ?r" by (rule post_any)
    then obtain k v' s' where r: "?r = Some (k, v', s')" and sg: "seg (?c0, ?w1) s'"
      and kd: "single_forced (props ?c0) \<longrightarrow> k \<noteq> Some (Task CbPhase2)"
      unfolding post_def by auto
    obtain c' w' where s': "s' = (c', w')" by (cases s')
    have nv: "\<not> valid p" using stop valid_bounds[of p] by (auto simp: closure0_simps)
    show ?thesis using eq r sg kd nv s' by (simp add: closure0_simps)
  qed
  then obtain k v' c' w' where
      ser: "series (tasks el) (Some final_cb) (?c0, ?w1) = Some (k, v', (c', w'))"
    and sg: "seg (?c0, ?w1) (c', w')" and ns: "\<not> isSync v'"
    and kd: "single_forced p \<longrightarrow> k \<noteq> Some (Task CbPhase2)"
    and okk: "valid p \<longrightarrow> (\<forall>k'. k = Some k' \<longrightarrow> ok (k', v', c'))"
    by blast
  from sg obtain evs where s: "props c' = p" "c_pid c' = ?q" "pid w' = ?q"
      "idCounter w' = ?q" "pending w' = pending w" "trace w' = trace w @ evs"
      "set evs \<subseteq> tests_of p ?q"
    unfolding seg_iff by (auto simp: closure0_simps world1_simps own_tests_def)
  have pr: "process el p w = suspend (Some (k, v', (c', w')))"
    using True ser by (simp add: process_accepted)
  show ?thesis
  proof (cases k)
    case None
    then have "process el p w = Some w'" using pr by (simp add: suspend_def)
    then show ?thesis using s
      by (intro exI[of _ w'] exI[of _ evs] exI[of _ "[]"]) simp
  next
    case (Some k')
    let ?w = "w'\<lparr>pending := pending w' @ [(k', v', c')]\<rparr>"
    have "process el p w = Some ?w" using pr Some by (simp add: suspend_def)
    then show ?thesis using s ns kd okk Some
      by (intro exI[of _ ?w] exI[of _ evs] exI[of _ "[(k', v', c')]"]) (simp add: born_def)
  qed
qed

lemma process_started: "started p w (process el p w)"
proof (cases "accepted el")
  case False
  then consider "\<not> hasRefs el"
    | "hasRefs el" "js_le (innerHeight el) (Num 0) \<or> isNaN (innerHeight el)"
    | "hasRefs el" "\<not> (js_le (innerHeight el) (Num 0) \<or> isNaN (innerHeight el))"
      "js_le (innerWidth el) (Num 0) \<or> isNaN (innerWidth el)"
    unfolding accepted_def by blast
  then show ?thesis
  proof cases
    case 1
    then show ?thesis unfolding started_def
      by (intro exI[of _ w] exI[of _ "[]"]) (simp add: process_turned_away)
  next
    case 2
    then show ?thesis unfolding started_def
      by (intro exI[of _ "w\<lparr>trace := trace w @ [Warn ''Can not process element without height. Make sure the element is displayed and has a static height.'']\<rparr>"]
                exI[of _ "[Warn ''Can not process element without height. Make sure the element is displayed and has a static height.'']"] exI[of _ "[]"])
         (simp add: process_turned_away)
  next
    case 3
    then show ?thesis unfolding started_def
      by (intro exI[of _ "w\<lparr>trace := trace w @ [Warn ''Can not process element without width. Make sure the element is displayed and has a static width.'']\<rparr>"]
                exI[of _ "[Warn ''Can not process element without width. Make sure the element is displayed and has a static width.'']"] exI[of _ "[]"])
         (simp add: process_turned_away)
  qed
next
  case True
  from process_accepted_started[OF True, of p w] show ?thesis
    unfolding started_def by blast
qed

section \<open>The fit engine: executions\<close>

lemma fresh_world0: "fresh world0"
  by (simp add: fresh_def world0_def)

lemma tests_of_pid: "e \<in> tests_of p q \<Longrightarrow> event_pid e = q"
  by (auto simp: tests_of_def split: if_splits)

lemma emits_pid: "e \<in> emits k c \<Longrightarrow> event_pid e = c_pid c"
  by (auto simp: emits_def own_tests_def dest: tests_of_pid split: if_splits)

lemma set_remove_nth: "set (take i xs @ drop (Suc i) xs) \<subseteq> set xs"
  by (auto dest: in_set_takeD in_set_dropD)

lemma fresh_cb_mono: "fresh_cb n x \<Longrightarrow> n \<le> m \<Longrightarrow> fresh_cb m x"
  by (cases x) (simp add: fresh_cb_def)

lemma born_fresh: "born p q x \<Longrightarrow> fresh_cb q x"
  by (cases x) (simp add: born_def fresh_cb_def)

lemma follows_fresh: "follows x y \<Longrightarrow> fresh_cb n x \<Longrightarrow> fresh_cb n y"
  by (cases x, cases y) (simp add: follows_def fresh_cb_def)

lemma freshI:
  assumes "trace w' = trace w @ evs" and "set (pending w') \<subseteq> set (pending w) \<union> set ks"
    and "fresh w" and "idCounter w \<le> idCounter w'"
    and "\<forall>e \<in> set evs. event_pid e \<le> idCounter w'"
    and "\<forall>x \<in> set ks. fresh_cb (idCounter w') x"
  shows "fresh w'"
  unfolding fresh_def
proof (intro conjI ballI)
  fix x assume "x \<in> set (pending w')"
  with assms(2) have "x \<in> set (pending w) \<or> x \<in> set ks" by blast
  then show "fresh_cb (idCounter w') x"
    using assms(3,4,6) fresh_cb_mono unfolding fresh_def by blast
next
  fix e assume "e \<in> set (trace w')"
  with assms(1) have "e \<in> set (trace w) \<or> e \<in> set evs" by simp
  then show "event_pid e \<le> idCounter w'"
    using assms(3,4,5) unfolding fresh_def by fastforce
qed

lemma fresh_started:
  assumes "fresh w" and "started p w r"
  shows "\<exists>w'. r = Some w' \<and> fresh w' \<and> idCounter w \<le> idCounter w'"
proof -
  from assms(2) obtain w' evs ks where r: "r = Some w'"
    and tr: "trace w' = trace w @ evs" and pe: "pending w' = pending w @ ks"
    and d: "(pid w' = pid w \<and> idCounter w' = idCounter w \<and> ks = [] \<and> state w' = state w
              \<and> (evs = [] \<or> (\<exists>m. evs = [Warn m])))
            \<or> (pid w' = Suc (idCounter w) \<and> idCounter w' = Suc (idCounter w)
                \<and> set evs \<subseteq> tests_of p (Suc (idCounter w)) \<and> length ks \<le> 1
                \<and> (\<forall>x \<in> set ks. born p (Suc (idCounter w)) x))"
    unfolding started_def by blast
  have sub: "set (pending w') \<subseteq> set (pending w) \<union> set ks" using pe by simp
  from d show ?thesis
  proof
    assume a: "pid w' = pid w \<and> idCounter w' = idCounter w \<and> ks = [] \<and> state w' = state w
              \<and> (evs = [] \<or> (\<exists>m. evs = [Warn m]))"
    then have ev: "\<forall>e \<in> set evs. event_pid e \<le> idCounter w'" by auto
    have "fresh w'" by (rule freshI[OF tr sub assms(1) _ ev]) (use a in simp_all)
    then show ?thesis using r a by simp
  next
    assume a: "pid w' = Suc (idCounter w) \<and> idCounter w' = Suc (idCounter w)
                \<and> set evs \<subseteq> tests_of p (Suc (idCounter w)) \<and> length ks \<le> 1
                \<and> (\<forall>x \<in> set ks. born p (Suc (idCounter w)) x)"
    then have ev: "\<forall>e \<in> set evs. event_pid e \<le> idCounter w'"
      using tests_of_pid by fastforce
    have new: "\<forall>x \<in> set ks. fresh_cb (idCounter w') x"
      using a born_fresh by auto
    have "fresh w'" by (rule freshI[OF tr sub assms(1) _ ev new]) (use a in simp)
    then show ?thesis using r a by simp
  qed
qed

lemma fresh_fired:
  assumes "fresh w" and i: "i < length (pending w)"
    and f: "fired (pending w ! i) (w\<lparr>pending := take i (pending w) @ drop (Suc i) (pending w)\<rparr>) r"
  shows "\<exists>w'. r = Some w' \<and> fresh w' \<and> idCounter w' = idCounter w"
proof -
  let ?x = "pending w ! i"
  have xin: "?x \<in> set (pending w)" using i by simp
  then have xf: "fresh_cb (idCounter w) ?x" using assms(1) unfolding fresh_def by blast
  let ?rest = "take i (pending w) @ drop (Suc i) (pending w)"
  from f obtain w' evs ks where r: "r = Some w'" and id: "idCounter w' = idCounter w"
    and tr: "trace w' = trace w @ evs" and em: "set evs \<subseteq> emits (fst ?x) (snd (snd ?x))"
    and pe: "pending w' = ?rest @ ks" and fo: "\<forall>y \<in> set ks. follows ?x y"
    unfolding fired_def by auto
  have "c_pid (snd (snd ?x)) \<le> idCounter w" using xf by (cases ?x) (simp add: fresh_cb_def)
  then have ev: "\<forall>e \<in> set evs. event_pid e \<le> idCounter w'"
    using em emits_pid id by fastforce
  have new: "\<forall>y \<in> set ks. fresh_cb (idCounter w') y"
    using fo xf id follows_fresh by metis
  have sub: "set (pending w') \<subseteq> set (pending w) \<union> set ks"
    using pe set_remove_nth[of i "pending w"] by auto
  have "fresh w'" by (rule freshI[OF tr sub assms(1) _ ev new]) (use id in simp)
  then show ?thesis using r id by simp
qed

lemma unmount_eq: "componentWillUnmount w = w\<lparr>idCounter := Suc (idCounter w), pid := Suc (idCounter w)\<rparr>"
  by (simp add: componentWillUnmount_def uniqueId_def)

lemma fresh_unmount: "fresh w \<Longrightarrow> fresh (componentWillUnmount w)"
  by (rule freshI[where evs = "[]" and ks = "[]" and w = w]) (simp_all add: unmount_eq)

lemma perform_fresh:
  assumes "fresh w"
  shows "\<exists>w'. perform a w = Some w' \<and> fresh w' \<and> idCounter w \<le> idCounter w'"
proof (cases a)
  case (Request el p)
  then show ?thesis using fresh_started[OF assms process_started[of p w el]] by simp
next
  case (Fire i el)
  show ?thesis
  proof (cases "i < length (pending w)")
    case True
    from fresh_fired[OF assms True fire_fired[OF True, of el]] show ?thesis
      using Fire by auto
  next
    case False
    then show ?thesis using Fire assms by (simp add: fire_idle)
  qed
next
  case Unmount
  then show ?thesis using fresh_unmount[OF assms]
    by (simp add: unmount_eq)
qed

lemma exec_fresh:
  "fresh w \<Longrightarrow> \<exists>w'. exec sched w = Some w' \<and> fresh w' \<and> idCounter w \<le> idCounter w'"
proof (induction sched arbitrary: w)
  case Nil
  then show ?case by simp
next
  case (Cons a sched)
  from perform_fresh[OF Cons.prems, of a] obtain w1 where
    1: "perform a w = Some w1" "fresh w1" "idCounter w \<le> idCounter w1" by blast
  from Cons.IH[OF 1(2)] obtain w2 where
    2: "exec sched w1 = Some w2" "fresh w2" "idCounter w1 \<le> idCounter w2" by blast
  show ?case using 1 2 by simp
qed


lemma born_good: "born p q x \<Longrightarrow> good_cb q p x"
  by (cases x) (simp add: born_def good_cb_def)

lemma fresh_good: "fresh_cb n x \<Longrightarrow> n < q \<Longrightarrow> good_cb q p x"
  by (cases x) (simp add: fresh_cb_def good_cb_def)

lemma other_good_event: "event_pid e \<noteq> q \<Longrightarrow> good_event q p e"
  by (cases e) (auto simp: good_event_def)

lemma tests_good_event: "e \<in> tests_of p q \<Longrightarrow> good_event q p e"
  by (auto simp: tests_of_def good_event_def split: if_splits)

lemma run_inv_start:
  assumes fr: "fresh w" and acc: "accepted el" and pr: "process el p w = Some w'"
  shows "run_inv (Suc (idCounter w)) p w' \<and> pid w' = Suc (idCounter w)"
proof -
  let ?q = "Suc (idCounter w)"
  from process_accepted_started[OF acc, of p w] pr obtain evs ks where
    tr: "trace w' = trace w @ evs" and pe: "pending w' = pending w @ ks"
    and pd: "pid w' = ?q" and id: "idCounter w' = ?q"
    and ev: "set evs \<subseteq> tests_of p ?q" and bo: "\<forall>x \<in> set ks. born p ?q x"
    by auto
  from fresh_started[OF fr process_started[of p w el]] pr have fr': "fresh w'" by simp
  have cb: "\<forall>x \<in> set (pending w'). good_cb ?q p x"
  proof
    fix x assume "x \<in> set (pending w')"
    then consider "x \<in> set (pending w)" | "x \<in> set ks" using pe by auto
    then show "good_cb ?q p x"
    proof cases
      case 1
      then have "fresh_cb (idCounter w) x" using fr unfolding fresh_def by blast
      then show ?thesis by (rule fresh_good) simp
    next
      case 2
      then show ?thesis using bo born_good by blast
    qed
  qed
  have evs: "\<forall>e \<in> set (trace w'). good_event ?q p e"
  proof
    fix e assume "e \<in> set (trace w')"
    then consider "e \<in> set (trace w)" | "e \<in> set evs" using tr by auto
    then show "good_event ?q p e"
    proof cases
      case 1
      then have "event_pid e \<le> idCounter w" using fr unfolding fresh_def by blast
      then show ?thesis by (intro other_good_event) simp
    next
      case 2
      then show ?thesis using ev tests_good_event by blast
    qed
  qed
  show ?thesis unfolding run_inv_def using id pd fr' cb evs by simp
qed

lemma follows_good:
  assumes "follows x y" and "good_cb q p x" and "fresh_cb n x"
  shows "good_cb q p y"
  using assms by (cases x, cases y) (auto simp: follows_def good_cb_def fresh_cb_def)

lemma emits_good:
  assumes "e \<in> emits k c" and "good_cb q p (k, v, c)"
  shows "good_event q p e"
proof (cases "c_pid c = q")
  case False
  then show ?thesis using emits_pid[OF assms(1)] by (intro other_good_event) simp
next
  case True
  with assms(2) have g: "props c = p" "single_forced p \<longrightarrow> k \<noteq> Task CbPhase2"
    "valid p \<longrightarrow> ok (k, v, c)" by (simp_all add: good_cb_def)
  show ?thesis
  proof (cases "k = After CbReady")
    case r: True
    then have e: "e = OnReady q (mid c)" using assms(1) True by (simp add: emits_def)
    show ?thesis using e g(3) r True g(1) by (auto simp: good_event_def in_range_def)
  next
    case nr: False
    show ?thesis
    proof (cases "k = Task CbPhase2")
      case True
      then have "\<not> single_forced p" using g(2) by blast
      moreover have "e = TestPrimary (c_pid c) \<or> e = TestSecondary (c_pid c)"
        using assms(1) True by (simp add: emits_def)
      ultimately show ?thesis by (auto simp: good_event_def)
    next
      case False
      then have "e \<in> tests_of p q" using assms(1) nr True g(1)
        by (simp add: emits_def own_tests_def)
      then show ?thesis by (rule tests_good_event)
    qed
  qed
qed

lemma run_inv_perform:
  assumes inv: "run_inv q p w"
  shows "\<exists>w'. perform a w = Some w' \<and> run_inv q p w'"
proof -
  from inv have q: "q \<le> idCounter w" and fr: "fresh w"
    and cb: "\<forall>x \<in> set (pending w). good_cb q p x"
    and ge: "\<forall>e \<in> set (trace w). good_event q p e"
    unfolding run_inv_def by auto
  from perform_fresh[OF fr, of a] obtain w' where
    pf: "perform a w = Some w'" and fr': "fresh w'" and le: "idCounter w \<le> idCounter w'"
    by blast
  have "(\<forall>x \<in> set (pending w'). good_cb q p x) \<and> (\<forall>e \<in> set (trace w'). good_event q p e)"
  proof (cases a)
    case (Request el p')
    from process_started[of p' w el] pf Request obtain evs ks where
      tr: "trace w' = trace w @ evs" and pe: "pending w' = pending w @ ks"
      and d: "(ks = [] \<and> (evs = [] \<or> (\<exists>m. evs = [Warn m])))
            \<or> (set evs \<subseteq> tests_of p' (Suc (idCounter w))
                \<and> (\<forall>x \<in> set ks. born p' (Suc (idCounter w)) x))"
      unfolding started_def by auto
    have new_ev: "\<forall>e \<in> set evs. good_event q p e"
    proof
      fix e assume e: "e \<in> set evs"
      from d e consider m where "e = Warn m" | "e \<in> tests_of p' (Suc (idCounter w))"
        by auto
      then show "good_event q p e"
      proof cases
        case 1
        then show ?thesis by (simp add: good_event_def)
      next
        case 2
        then have "event_pid e \<noteq> q" using tests_of_pid[OF 2] q by simp
        then show ?thesis by (rule other_good_event)
      qed
    qed
    have new_cb: "\<forall>x \<in> set ks. good_cb q p x"
    proof
      fix x assume x: "x \<in> set ks"
      with d have "born p' (Suc (idCounter w)) x" by auto
      then have "fresh_cb (Suc (idCounter w)) x \<and> c_pid (snd (snd x)) = Suc (idCounter w)"
        by (cases x) (simp add: born_def fresh_cb_def)
      then show "good_cb q p x" using q by (cases x) (simp add: good_cb_def)
    qed
    show ?thesis using tr pe cb ge new_ev new_cb by auto
  next
    case (Fire i el)
    show ?thesis
    proof (cases "i < length (pending w)")
      case False
      then show ?thesis using Fire pf cb ge by (simp add: fire_idle)
    next
      case True
      let ?x = "pending w ! i"
      let ?rest = "take i (pending w) @ drop (Suc i) (pending w)"
      have xin: "?x \<in> set (pending w)" using True by simp
      from fire_fired[OF True, of el] pf Fire obtain evs ks where
        tr: "trace w' = trace w @ evs" and em: "set evs \<subseteq> emits (fst ?x) (snd (snd ?x))"
        and pe: "pending w' = ?rest @ ks" and fo: "\<forall>y \<in> set ks. follows ?x y"
        unfolding fired_def by auto
      have gx: "good_cb q p ?x" using cb xin by blast
      have fx: "fresh_cb (idCounter w) ?x" using fr xin unfolding fresh_def by blast
      have new_cb: "\<forall>y \<in> set ks. good_cb q p y"
        using fo gx fx follows_good by blast
      have new_ev: "\<forall>e \<in> set evs. good_event q p e"
        using em gx emits_good[of _ "fst ?x" "snd (snd ?x)" q p "fst (snd ?x)"] by auto
      have old_cb: "\<forall>y \<in> set ?rest. good_cb q p y"
        using cb set_remove_nth[of i "pending w"] by blast
      show ?thesis using tr pe ge new_ev new_cb old_cb by auto
    qed
  next
    case Unmount
    then show ?thesis using pf cb ge by (auto simp: unmount_eq)
  qed
  then show ?thesis using pf fr' q le unfolding run_inv_def by auto
qed

lemma run_inv_exec:
  "run_inv q p w \<Longrightarrow> \<exists>w'. exec sched w = Some w' \<and> run_inv q p w'"
proof (induction sched arbitrary: w)
  case Nil
  then show ?case by simp
next
  case (Cons a sched)
  from run_inv_perform[OF Cons.prems, of a] obtain w1 where
    1: "perform a w = Some w1" "run_inv q p w1" by blast
  from Cons.IH[OF 1(2)] obtain w2 where 2: "exec sched w1 = Some w2" "run_inv q p w2" by blast
  show ?case using 1 2 by simp
qed

lemma resume_final_live:
  "c_pid c = pid w \<Longrightarrow> \<not> isSync v \<Longrightarrow> current v = 2 \<Longrightarrow>
   resume el (Task CbFinal, v, c) w =
     Some ((setState_ready True w)\<lparr>pending := pending w @
            [(After CbReady, v\<lparr>results := results v @ [Undefined], current := 3\<rparr>, c)]\<rparr>)"
  by (simp add: resume_def each_last suspend_def setState_ready_def)

lemma resume_ready:
  "resume el (After CbReady, v, c) w = Some (w\<lparr>trace := trace w @ [OnReady (c_pid c) (mid c)]\<rparr>)"
  by (simp add: resume_def callback_ready_def)

section \<open>The fit engine: a run left alone\<close>

text \<open>
  A request with valid props on a measurable element, made when nothing is waiting, and
  whose callbacks are then run one after the other with no other request and no unmount in
  between, comes to an end: it reports one size within the bounds, which is also the size
  left in the component state, and the component is ready.
\<close>

lemma trunc_half_between: "l \<le> h \<Longrightarrow> l \<le> trunc_half (l + h) \<and> trunc_half (l + h) \<le> h"
  by (auto simp: trunc_half_def)

lemma probing_searching: "probing c \<Longrightarrow> searching c"
  by (auto simp: probing_def searching_def)

lemma level2_live:
  "2 \<le> current v \<Longrightarrow> \<not> isSync v \<Longrightarrow> c_pid c = pid w \<Longrightarrow>
   series_each (tasks el) (Some final_cb) Null Undefined (v, (c, w))
     = Some (Some (After CbReady), v\<lparr>results := results v @ [Undefined], current := Suc (current v)\<rparr>,
             (c, setState_ready True w))"
  by (simp add: each_last)

lemma level1_live:
  "current v = 1 \<Longrightarrow> c_pid c = pid w \<Longrightarrow>
   series_each (tasks el) (Some final_cb) Null Undefined (v, (c, w))
     = Some (Some (Task CbFinal), v\<lparr>results := results v @ [Undefined], current := 2\<rparr>,
             (c\<lparr>mid := Some (step3_mid c)\<rparr>, setState_fontSize (Some (step3_mid c)) w))"
  by (simp add: each_step3)

text \<open>What step 2 leaves for a live run with valid props whose first search is over.\<close>

lemma level0_live:
  assumes cur: "current v = 0" and live: "c_pid c = pid w" and sea: "searching c"
    and val: "valid (props c)"
  shows "\<exists>k' v' c' w'.
     series_each (tasks el) (Some final_cb) Null Undefined (v, (c, w)) = Some (Some (Task k'), v', (c', w'))
     \<and> isSync v' = isSync v \<and> props c' = props c \<and> c_pid c' = c_pid c \<and> pid w' = pid w
     \<and> pending w' = pending w
     \<and> ((k' = CbFinal \<and> current v' = 2 \<and> in_range c' \<and> fontSize (state w') = mid c')
         \<or> (k' = CbPhase2 \<and> current v' = 1 \<and> probing c'))"
proof -
  let ?v2 = "v\<lparr>results := results v @ [Undefined], current := 1\<rparr>"
  from sea obtain l h m where lhm: "low c = Num l" "high c = Num h" "mid c = Some (Num m)"
    by (auto simp: searching_def)
  have fin: "\<exists>k' v' c' w'.
     series_each (tasks el) (Some final_cb) Null Undefined (?v2, (c1, w1)) = Some (Some (Task k'), v', (c', w'))
     \<and> isSync v' = isSync v \<and> props c' = props c \<and> c_pid c' = c_pid c \<and> pid w' = pid w
     \<and> pending w' = pending w
     \<and> ((k' = CbFinal \<and> current v' = 2 \<and> in_range c' \<and> fontSize (state w') = mid c')
         \<or> (k' = CbPhase2 \<and> current v' = 1 \<and> probing c'))"
    if "props c1 = props c" "c_pid c1 = c_pid c" "pid w1 = pid w" "pending w1 = pending w"
       "low c1 = Num l1" "high c1 = Num h1" for c1 w1 l1 h1
  proof -
    have "in_range (c1\<lparr>mid := Some (step3_mid c1)\<rparr>)"
      using step3_mid_range[of c1 l1 h1] that val by (simp add: in_range_def)
    then show ?thesis using that live
      by (simp add: level1_live setState_fontSize_def)
  qed
  show ?thesis
  proof (cases "single_forced (props c)")
    case True
    from fin[of c w l h] lhm show ?thesis using cur True
      by (simp add: each_step2 step2_skip resume_called)
  next
    case nsf: False
    obtain fits w' where ts: "testSecondary el (c, w) = (fits, w')"
      by (cases "testSecondary el (c, w)")
    have w': "pid w' = pid w" "pending w' = pending w"
      using ts by (auto simp: testSecondary_def)
    show ?thesis
    proof (cases fits)
      case True
      from fin[of c w' l h] lhm w' show ?thesis using cur True
        by (simp add: each_step2 step2_test[OF nsf ts] resume_called)
    next
      case nf: False
      let ?c2 = "c\<lparr>low := Num (or_default (min_prop (props c)) 1), high := toNumber (mid c)\<rparr>"
      have c2: "low ?c2 = Num (or_default (min_prop (props c)) 1)" "high ?c2 = Num m"
        "props ?c2 = props c" "c_pid ?c2 = c_pid c"
        using lhm by simp_all
      show ?thesis
      proof (cases "js_lt (low ?c2) (high ?c2)")
        case lt: True
        let ?c3 = "?c2\<lparr>mid := Some (parseInt_half (low ?c2) (high ?c2))\<rparr>"
        let ?w3 = "setState_fontSize (Some (parseInt_half (low ?c2) (high ?c2))) w'"
        have "or_default (min_prop (props c)) 1 \<le> m" using lt c2 by simp
        from trunc_half_between[OF this] have "probing ?c3"
          using lhm by (simp add: probing_def)
        then show ?thesis using cur nf lt live w'
          by (simp add: each_step2 step2_test[OF nsf ts] whilst_iterator2 resume_pending
                setState_fontSize_def)
      next
        case nlt: False
        from fin[of ?c2 w' "or_default (min_prop (props c)) 1" m] c2 w'
        show ?thesis using cur nf nlt
          by (simp add: each_step2 step2_test[OF nsf ts] whilst_iterator2 resume_called)
      qed
    qed
  qed
qed


lemma fire0_lone:
  "pending w = [x] \<Longrightarrow> fire 0 el w = resume el x (w\<lparr>pending := []\<rparr>)"
  by (simp add: fire_def)

lemma suspend_some:
  "suspend (Some (Some k, v, (c, w))) = Some (w\<lparr>pending := pending w @ [(k, v, c)]\<rparr>)"
  by (simp add: suspend_def)

lemma seg_trace: "seg (c, w) (c', w') \<Longrightarrow> \<exists>evs. trace w' = trace w @ evs"
  unfolding seg_iff by blast

lemma lone_stepI:
  assumes "fire 0 el w = Some w'" and "pid w' = pid w" and "lone w' y" and "smaller y (k, v, c)"
    and "props (snd (snd y)) = props c" and "c_pid (snd (snd y)) = c_pid c"
    and "trace w' = trace w @ evs"
  shows "\<exists>w'. fire 0 el w = Some w' \<and> pid w' = pid w
       \<and> ((k = After CbReady \<and> pending w' = [] \<and> state w' = state w
             \<and> trace w' = trace w @ [OnReady (c_pid c) (mid c)])
           \<or> (\<exists>y evs. lone w' y \<and> smaller y (k, v, c) \<and> props (snd (snd y)) = props c
                 \<and> c_pid (snd (snd y)) = c_pid c \<and> trace w' = trace w @ evs))"
  using assms by blast

lemma lone_step:
  assumes "lone w (k, v, c)"
  shows "\<exists>w'. fire 0 el w = Some w' \<and> pid w' = pid w
       \<and> ((k = After CbReady \<and> pending w' = [] \<and> state w' = state w
             \<and> trace w' = trace w @ [OnReady (c_pid c) (mid c)])
           \<or> (\<exists>y evs. lone w' y \<and> smaller y (k, v, c) \<and> props (snd (snd y)) = props c
                 \<and> c_pid (snd (snd y)) = c_pid c \<and> trace w' = trace w @ evs))"
proof -
  from assms have pe: "pending w = [(k, v, c)]" and live: "c_pid c = pid w" and ns: "\<not> isSync v"
    and val: "valid (props c)" and okx: "ok (k, v, c)"
    and pr: "k = Task CbPhase1 \<or> k = Task CbPhase2 \<longrightarrow> probing c"
    and fs: "k = Task CbFinal \<or> k = After CbReady \<longrightarrow> fontSize (state w) = mid c"
    and rd: "k = After CbReady \<longrightarrow> ready (state w)"
    by (simp_all add: lone_def)
  let ?w0 = "w\<lparr>pending := []\<rparr>"
  have f0: "fire 0 el w = resume el (k, v, c) ?w0" using pe by (rule fire0_lone)
  have live0: "c_pid c = pid ?w0" using live by simp
  show ?thesis
  proof (cases k)
    case (After j)
    then have k: "k = After CbReady" by (cases j) simp
    show ?thesis using f0 k by (simp add: resume_ready)
  next
    case (Timer e)
    then show ?thesis using okx by simp
  next
    case (Task j)
    show ?thesis
    proof (cases j)
      case CbFinal
      with Task okx have cur: "current v = 2" and ir: "in_range c" by simp_all
      let ?v2 = "v\<lparr>results := results v @ [Undefined], current := 3\<rparr>"
      let ?w' = "(setState_ready True ?w0)\<lparr>pending := [(After CbReady, ?v2, c)]\<rparr>"
      have r: "fire 0 el w = Some ?w'"
        using f0 Task CbFinal cur ns live0
        by (simp add: resume_final_live setState_ready_def)
      have lo: "lone ?w' (After CbReady, ?v2, c)"
        using live ns val ir fs Task CbFinal by (simp add: lone_def setState_ready_def)
      have sm: "smaller (After CbReady, ?v2, c) (k, v, c)"
        using Task CbFinal by (simp add: smaller_def)
      have tr: "trace ?w' = trace w @ []" by (simp add: setState_ready_def)
      have pw: "pid ?w' = pid w" by (simp add: setState_ready_def)
      show ?thesis
        by (rule lone_stepI[OF r pw lo sm _ _ tr]) simp_all
    next
      case CbPhase1
      with Task okx pr have cur: "current v = 0" and pb: "probing c" by simp_all
      from pb obtain l h m where lhm: "low c = Num l" "high c = Num h" "mid c = Some (Num m)"
        "l \<le> m" "m \<le> h" by (auto simp: probing_def)
      obtain fits w1 where tp: "testPrimary el (c, ?w0) = (fits, w1)"
        by (cases "testPrimary el (c, ?w0)")
      have w1: "pid w1 = pid w" "pending w1 = []" "trace w1 = trace w @ [TestPrimary (c_pid c)]"
        using tp by (auto simp: testPrimary_def)
      let ?c1 = "if fits then c\<lparr>low := js_add (toNumber (mid c)) 1\<rparr>
                 else c\<lparr>high := js_add (toNumber (mid c)) (- 1)\<rparr>"
      let ?l1 = "if fits then m + 1 else l"
      let ?h1 = "if fits then h else m - 1"
      have c1: "low ?c1 = Num ?l1" "high ?c1 = Num ?h1" "mid ?c1 = Some (Num m)"
        "props ?c1 = props c" "c_pid ?c1 = c_pid c" using lhm by simp_all
      show ?thesis
      proof (cases "?l1 \<le> ?h1")
        case go: True
        let ?m2 = "trunc_half (?l1 + ?h1)"
        let ?c2 = "?c1\<lparr>mid := Some (parseInt_half (low ?c1) (high ?c1))\<rparr>"
        let ?w2 = "setState_fontSize (Some (parseInt_half (low ?c1) (high ?c1))) w1"
        let ?w' = "?w2\<lparr>pending := [(Task CbPhase1, v, ?c2)]\<rparr>"
        have le: "js_le (low ?c1) (high ?c1)" using go c1 by simp
        have r: "fire 0 el w = Some ?w'"
          using f0 Task CbPhase1 le live w1
          by (simp add: resume_phase1 callback1_live[OF live0 tp] whilst_next_iterator1
                resume_pending suspend_some setState_fontSize_def
                del: if_split cong: if_cong)
        have pb2: "probing ?c2"
          using trunc_half_between[OF go] c1 by (simp add: probing_def del: if_split cong: if_cong)
        have lo: "lone ?w' (Task CbPhase1, v, ?c2)"
          using live ns val cur pb2 probing_searching[OF pb2] w1 c1(4,5)
          by (simp add: lone_def setState_fontSize_def del: if_split cong: if_cong)
        have "remaining ?c2 < remaining c" using lhm go by (auto split: if_splits)
        then have sm: "smaller (Task CbPhase1, v, ?c2) (k, v, c)"
          using Task CbPhase1 by (simp add: smaller_def del: remaining.simps)
        have tr: "trace ?w' = trace w @ [TestPrimary (c_pid c)]"
          using w1 by (simp add: setState_fontSize_def)
        have pw: "pid ?w' = pid w" using w1 by (simp add: setState_fontSize_def)
        show ?thesis
          by (rule lone_stepI[OF r pw lo sm _ _ tr]) (simp_all add: c1(4,5) del: if_split cong: if_cong)
      next
        case stop: False
        have nle: "\<not> js_le (low ?c1) (high ?c1)" using stop c1 by simp
        have sea: "searching ?c1" using c1 by (auto simp: searching_def)
        have live1: "c_pid ?c1 = pid w1" using live w1 by simp
        have val1: "valid (props ?c1)" using val by simp
        from level0_live[OF cur live1 sea val1, of el] obtain k' v' c' w' where
          e: "series_each (tasks el) (Some final_cb) Null Undefined (v, (?c1, w1))
                = Some (Some (Task k'), v', (c', w'))"
          and f: "isSync v' = isSync v" "props c' = props ?c1" "c_pid c' = c_pid ?c1"
                 "pid w' = pid w1" "pending w' = pending w1"
          and d: "(k' = CbFinal \<and> current v' = 2 \<and> in_range c' \<and> fontSize (state w') = mid c')
                  \<or> (k' = CbPhase2 \<and> current v' = 1 \<and> probing c')"
          by blast
        let ?w'' = "w'\<lparr>pending := [(Task k', v', c')]\<rparr>"
        have r: "fire 0 el w = Some ?w''"
          using f0 Task CbPhase1 nle e f w1
          by (simp add: resume_phase1 callback1_live[OF live0 tp] whilst_next_iterator1
                resume_called suspend_some del: if_split cong: if_cong)
        have p: "post (?c1, w1) v (series_each (tasks el) (Some final_cb) Null Undefined (v, (?c1, w1)))"
          by (rule post_any)
        then have "seg (?c1, w1) (c', w')" unfolding post_def e by simp
        then obtain evs where tr: "trace w' = trace w1 @ evs"
          using seg_trace by blast
        have lo: "lone ?w'' (Task k', v', c')"
          using d f live ns val w1 c1(4,5) by (auto simp: lone_def probing_searching)
        have sm: "smaller (Task k', v', c') (k, v, c)"
          using d Task CbPhase1 by (auto simp: smaller_def)
        have pw: "pid ?w'' = pid w" using w1 f by simp
        have tr': "trace ?w'' = trace w @ ([TestPrimary (c_pid c)] @ evs)" using tr w1 by simp
        show ?thesis
          by (rule lone_stepI[OF r pw lo sm _ _ tr']) (simp_all add: f c1(4,5) del: if_split cong: if_cong)
      qed
    next
      case CbPhase2
      with Task okx pr have cur: "current v = 1" and pb: "probing c" by simp_all
      from pb obtain l h m where lhm: "low c = Num l" "high c = Num h" "mid c = Some (Num m)"
        "l \<le> m" "m \<le> h" by (auto simp: probing_def)
      obtain fits w1 where tp: "testSecondary el (c, ?w0) = (fits, w1)"
        by (cases "testSecondary el (c, ?w0)")
      have w1: "pid w1 = pid w" "pending w1 = []" "trace w1 = trace w @ [TestSecondary (c_pid c)]"
        using tp by (auto simp: testSecondary_def)
      let ?c1 = "if fits then c\<lparr>low := js_add (toNumber (mid c)) 1\<rparr>
                 else c\<lparr>high := js_add (toNumber (mid c)) (- 1)\<rparr>"
      let ?l1 = "if fits then m + 1 else l"
      let ?h1 = "if fits then h else m - 1"
      have c1: "low ?c1 = Num ?l1" "high ?c1 = Num ?h1" "mid ?c1 = Some (Num m)"
        "props ?c1 = props c" "c_pid ?c1 = c_pid c" using lhm by simp_all
      show ?thesis
      proof (cases "?l1 < ?h1")
        case go: True
        let ?c2 = "?c1\<lparr>mid := Some (parseInt_half (low ?c1) (high ?c1))\<rparr>"
        let ?w2 = "setState_fontSize (Some (parseInt_half (low ?c1) (high ?c1))) w1"
        let ?w' = "?w2\<lparr>pending := [(Task CbPhase2, v, ?c2)]\<rparr>"
        have lt: "js_lt (low ?c1) (high ?c1)" using go c1 by simp
        have r: "fire 0 el w = Some ?w'"
          using f0 Task CbPhase2 lt live w1
          by (simp add: resume_phase2 callback2_live[OF live0 tp] whilst_next_iterator2
                resume_pending suspend_some setState_fontSize_def
                del: if_split cong: if_cong)
        have go': "?l1 \<le> ?h1" using go by simp
        have pb2: "probing ?c2"
          using trunc_half_between[OF go'] c1 by (simp add: probing_def del: if_split cong: if_cong)
        have lo: "lone ?w' (Task CbPhase2, v, ?c2)"
          using live ns val cur pb2 probing_searching[OF pb2] w1 c1(4,5)
          by (simp add: lone_def setState_fontSize_def del: if_split cong: if_cong)
        have "remaining ?c2 < remaining c" using lhm go by (auto split: if_splits)
        then have sm: "smaller (Task CbPhase2, v, ?c2) (k, v, c)"
          using Task CbPhase2 by (simp add: smaller_def del: remaining.simps)
        have tr: "trace ?w' = trace w @ [TestSecondary (c_pid c)]"
          using w1 by (simp add: setState_fontSize_def)
        have pw: "pid ?w' = pid w" using w1 by (simp add: setState_fontSize_def)
        show ?thesis
          by (rule lone_stepI[OF r pw lo sm _ _ tr]) (simp_all add: c1(4,5) del: if_split cong: if_cong)
      next
        case stop: False
        have nlt: "\<not> js_lt (low ?c1) (high ?c1)" using stop c1 by simp
        have live1: "c_pid ?c1 = pid w1" using live w1 by simp
        let ?c3 = "?c1\<lparr>mid := Some (step3_mid ?c1)\<rparr>"
        let ?v2 = "v\<lparr>results := results v @ [Undefined], current := 2\<rparr>"
        let ?w3 = "setState_fontSize (Some (step3_mid ?c1)) w1"
        let ?w'' = "?w3\<lparr>pending := [(Task CbFinal, ?v2, ?c3)]\<rparr>"
        have r: "fire 0 el w = Some ?w''"
          using f0 Task CbPhase2 nlt w1
          by (simp add: resume_phase2 callback2_live[OF live0 tp] whilst_next_iterator2
                resume_called level1_live[OF cur live1] suspend_some setState_fontSize_def
                del: if_split cong: if_cong)
        have val1: "valid (props ?c1)" using val by simp
        have ir: "in_range ?c3"
          using step3_mid_range[OF val1 c1(1,2)] by (simp add: in_range_def del: if_split cong: if_cong)
        have lo: "lone ?w'' (Task CbFinal, ?v2, ?c3)"
          using live ns val ir w1 c1(4,5)
          by (simp add: lone_def setState_fontSize_def del: if_split cong: if_cong)
        have sm: "smaller (Task CbFinal, ?v2, ?c3) (k, v, c)"
          using Task CbPhase2 by (simp add: smaller_def)
        have tr: "trace ?w'' = trace w @ [TestSecondary (c_pid c)]"
          using w1 by (simp add: setState_fontSize_def)
        have pw: "pid ?w'' = pid w" using w1 by (simp add: setState_fontSize_def)
        show ?thesis
          by (rule lone_stepI[OF r pw lo sm _ _ tr]) (simp_all add: c1(4,5) del: if_split cong: if_cong)
      qed
    qed
  qed
qed

lemma wf_smaller: "wf {(y, x). smaller y x}"
proof -
  have "{(y, x). smaller y x}
        = inv_image (less_than <*lex*> less_than) (\<lambda>x. (stage (fst x), remaining (snd (snd x))))"
    by (auto simp: smaller_def inv_image_def simp del: remaining.simps)
  then show ?thesis by (simp add: wf_inv_image wf_lex_prod)
qed

lemma lone_completes:
  "lone w x \<Longrightarrow>
   \<exists>n w' m evs. exec (replicate n (Fire 0 el)) w = Some w' \<and> pending w' = []
     \<and> pid w' = pid w \<and> fontSize (state w') = Some (Num m) \<and> ready (state w')
     \<and> trace w' = trace w @ evs @ [OnReady (c_pid (snd (snd x))) (Some (Num m))]
     \<and> min_prop (props (snd (snd x))) \<le> m \<and> m \<le> max_prop (props (snd (snd x)))"
proof (induction x arbitrary: w rule: wf_induct_rule[OF wf_smaller])
  case (1 x)
  obtain k v c where x: "x = (k, v, c)" by (cases x)
  from "1.prems" have lo: "lone w (k, v, c)" by (simp add: x)
  from lone_step[OF lo, of el] obtain w1 where
    f: "fire 0 el w = Some w1" and pw: "pid w1 = pid w"
    and d: "(k = After CbReady \<and> pending w1 = [] \<and> state w1 = state w
               \<and> trace w1 = trace w @ [OnReady (c_pid c) (mid c)])
            \<or> (\<exists>y evs. lone w1 y \<and> smaller y (k, v, c) \<and> props (snd (snd y)) = props c
                  \<and> c_pid (snd (snd y)) = c_pid c \<and> trace w1 = trace w @ evs)"
    by blast
  from d show ?case
  proof
    assume a: "k = After CbReady \<and> pending w1 = [] \<and> state w1 = state w
               \<and> trace w1 = trace w @ [OnReady (c_pid c) (mid c)]"
    from lo a have "in_range c" and fs: "fontSize (state w) = mid c" and rd: "ready (state w)"
      by (simp_all add: lone_def)
    then obtain m where m: "mid c = Some (Num m)" "min_prop (props c) \<le> m" "m \<le> max_prop (props c)"
      by (auto simp: in_range_def)
    have e: "exec (replicate 1 (Fire 0 el)) w = Some w1" using f by simp
    show ?case using e a pw fs rd m unfolding x
      by (intro exI[of _ 1] exI[of _ w1] exI[of _ m] exI[of _ "[]"]) simp
  next
    assume "\<exists>y evs. lone w1 y \<and> smaller y (k, v, c) \<and> props (snd (snd y)) = props c
                  \<and> c_pid (snd (snd y)) = c_pid c \<and> trace w1 = trace w @ evs"
    then obtain y evs where ly: "lone w1 y" and sm: "smaller y (k, v, c)"
      and py: "props (snd (snd y)) = props c" and cy: "c_pid (snd (snd y)) = c_pid c"
      and tr: "trace w1 = trace w @ evs" by blast
    have "(y, x) \<in> {(y, x). smaller y x}" using sm x by simp
    from "1.IH"[OF this ly] obtain n w' m evs' where
      e: "exec (replicate n (Fire 0 el)) w1 = Some w'" and r: "pending w' = []" "pid w' = pid w1"
        "fontSize (state w') = Some (Num m)" "ready (state w')"
        "trace w' = trace w1 @ evs' @ [OnReady (c_pid (snd (snd y))) (Some (Num m))]"
        "min_prop (props (snd (snd y))) \<le> m" "m \<le> max_prop (props (snd (snd y)))"
      by blast
    have e': "exec (replicate (Suc n) (Fire 0 el)) w = Some w'" using f e by simp
    have t': "trace w' = trace w @ (evs @ evs') @ [OnReady (c_pid (snd (snd x))) (Some (Num m))]"
      using r(5) tr cy x by simp
    show ?case using e' r(1,3,4,6,7) pw r(2) py x t'
      by (intro exI[of _ "Suc n"] exI[of _ w'] exI[of _ m] exI[of _ "evs @ evs'"]) simp
  qed
qed

lemma process_valid:
  assumes "accepted el" and "valid p" and "pending w = []"
  shows "\<exists>w1 x. process el p w = Some w1 \<and> lone w1 x \<and> props (snd (snd x)) = p
           \<and> c_pid (snd (snd x)) = Suc (idCounter w) \<and> trace w1 = trace w"
proof -
  let ?q = "Suc (idCounter w)"
  let ?c0 = "closure0 el p ?q"
  let ?w1 = "world1 w"
  let ?v0 = "\<lparr>results = [], current = 0, isSync = True\<rparr>"
  let ?m = "parseInt_half (low ?c0) (high ?c0)"
  let ?c1 = "?c0\<lparr>mid := Some ?m\<rparr>"
  let ?w2 = "setState_fontSize (Some ?m) ?w1"
  let ?x = "(Task CbPhase1, ?v0\<lparr>isSync := False\<rparr>, ?c1)"
  let ?w = "?w2\<lparr>pending := [?x]\<rparr>"
  have go: "js_le (low ?c0) (high ?c0)" using valid_bounds[OF assms(2)] by (simp add: closure0_simps)
  have eq: "series (tasks el) (Some final_cb) (?c0, ?w1)
              = Some (Some (Task CbPhase1), ?v0\<lparr>isSync := False\<rparr>, (?c1, ?w2))"
    using go by (simp add: series_tasks whilst_iterator1 resume_pending closure0_simps world1_simps)
  have pr: "process el p w = Some ?w"
    using assms(1,3) eq by (simp add: process_accepted suspend_def setState_fontSize_def world1_simps)
  have lh: "low ?c0 = Num (min_prop p)" "high ?c0 = Num (max_prop p)"
    using assms(2) by (auto simp: closure0_simps valid_def or_default_def)
  have le: "min_prop p \<le> max_prop p" using assms(2) by (simp add: valid_def)
  have pb: "probing ?c1"
    using trunc_half_between[OF le] lh by (simp add: probing_def)
  have lo: "lone ?w ?x"
    using pb probing_searching[OF pb] assms(2)
    by (simp add: lone_def closure0_simps world1_simps setState_fontSize_def)
  show ?thesis using pr lo
    by (intro exI[of _ ?w] exI[of _ ?x]) (simp add: closure0_simps world1_simps setState_fontSize_def)
qed

lemma lone_run_completes:
  assumes "accepted el" and "valid p" and "pending w = []"
  shows "\<exists>n w' m evs. exec (Request el p # replicate n (Fire 0 el)) w = Some w'
     \<and> pending w' = [] \<and> fontSize (state w') = Some (Num m) \<and> ready (state w')
     \<and> trace w' = trace w @ evs @ [OnReady (Suc (idCounter w)) (Some (Num m))]
     \<and> min_prop p \<le> m \<and> m \<le> max_prop p"
proof -
  from process_valid[OF assms] obtain w1 x where
    pr: "process el p w = Some w1" and lo: "lone w1 x" and px: "props (snd (snd x)) = p"
    and cx: "c_pid (snd (snd x)) = Suc (idCounter w)" and tr: "trace w1 = trace w" by blast
  from lone_completes[OF lo, of el] obtain n w' m evs where
    e: "exec (replicate n (Fire 0 el)) w1 = Some w'" and r: "pending w' = []"
      "fontSize (state w') = Some (Num m)" "ready (state w')"
      "trace w' = trace w1 @ evs @ [OnReady (c_pid (snd (snd x))) (Some (Num m))]"
      "min_prop (props (snd (snd x))) \<le> m" "m \<le> max_prop (props (snd (snd x)))"
    by blast
  have "exec (Request el p # replicate n (Fire 0 el)) w = Some w'" using pr e by simp
  then show ?thesis using r px cx tr
    by (intro exI[of _ n] exI[of _ w'] exI[of _ m] exI[of _ evs]) simp
qed

section \<open>The claims about the fit engine\<close>

lemma exec_append:
  "exec (xs @ ys) w = (case exec xs w of None \<Rightarrow> None | Some w' \<Rightarrow> exec ys w')"
  by (induction xs arbitrary: w) (auto split: option.splits)

lemma run_after_request:
  assumes acc: "accepted el"
  shows "\<exists>w1 w2 w3. exec before world0 = Some w1 \<and> process el p w1 = Some w2
           \<and> exec later w2 = Some w3 \<and> pid w2 = Suc (idCounter w1)
           \<and> run_inv (pid w2) p w3"
proof -
  from exec_fresh[OF fresh_world0, of before] obtain w1 where
    1: "exec before world0 = Some w1" "fresh w1" by blast
  from fresh_started[OF 1(2) process_started[of p w1 el]] obtain w2 where
    2: "process el p w1 = Some w2" by blast
  from run_inv_start[OF 1(2) acc 2] have
    3: "run_inv (Suc (idCounter w1)) p w2" "pid w2 = Suc (idCounter w1)" by simp_all
  from run_inv_exec[OF 3(1), of later] obtain w3 where
    4: "exec later w2 = Some w3" "run_inv (Suc (idCounter w1)) p w3" by blast
  show ?thesis using 1 2 3 4 by simp
qed

text \<open>
  C8. With \<^verbatim>\<open>mode = "single"\<close> and \<^verbatim>\<open>forceSingleModeWidth = true\<close>: step 2 calls its
  callback at once, before it would call \<^verbatim>\<open>testSecondary\<close>; and whatever happens before
  an accepted request with these props and after it, the trace never holds a call of
  \<^verbatim>\<open>testSecondary\<close> by the run the request started.
\<close>

theorem secondary_test_never_called:
  assumes "mode p = Single" and "forceSingleModeWidth p" and "accepted el"
  shows "(\<forall>c w. props c = p \<longrightarrow> step2 el (c, w) = Some (Called Null Undefined, (c, w)))
       \<and> (\<exists>w1 w2 w3. exec before world0 = Some w1 \<and> process el p w1 = Some w2
             \<and> exec later w2 = Some w3 \<and> pid w2 = Suc (idCounter w1)
             \<and> TestSecondary (pid w2) \<notin> set (trace w3))"
proof
  have sf: "single_forced p" using assms by (simp add: single_forced_def)
  then show "\<forall>c w. props c = p \<longrightarrow> step2 el (c, w) = Some (Called Null Undefined, (c, w))"
    by (simp add: step2_skip)
  from run_after_request[OF assms(3), of before p later] obtain w1 w2 w3 where
    e: "exec before world0 = Some w1" "process el p w1 = Some w2" "exec later w2 = Some w3"
       "pid w2 = Suc (idCounter w1)" and inv: "run_inv (pid w2) p w3" by blast
  have "TestSecondary (pid w2) \<notin> set (trace w3)"
  proof
    assume "TestSecondary (pid w2) \<in> set (trace w3)"
    with inv have "good_event (pid w2) p (TestSecondary (pid w2))"
      unfolding run_inv_def by blast
    with sf show False by (simp add: good_event_def)
  qed
  with e show "\<exists>w1 w2 w3. exec before world0 = Some w1 \<and> process el p w1 = Some w2
             \<and> exec later w2 = Some w3 \<and> pid w2 = Suc (idCounter w1)
             \<and> TestSecondary (pid w2) \<notin> set (trace w3)" by blast
qed




lemma iterator2_eq:
  "iterator2 (c, w) =
     (if c_pid c \<noteq> pid w then Some (Called (JBool True) Undefined, (c, w))
      else Some (Pending CbPhase2, (c\<lparr>mid := Some (parseInt_half (low c) (high c))\<rparr>,
                   setState_fontSize (Some (parseInt_half (low c) (high c))) w)))"
  by (simp add: iterator2_def shouldCancelProcess_def Let_def)


lemma accepted_page_A: "accepted page_A"
  by (simp add: accepted_def page_A_def)



theorem secondary_test_never_called_witness:
  "step2 page_A (closure0 page_A props_single 1, world0)
     = Some (Called Null Undefined, (closure0 page_A props_single 1, world0))
   \<and> (\<exists>w1 w2 w3. exec [] world0 = Some w1 \<and> process page_A props_single w1 = Some w2
         \<and> exec (replicate 8 (Fire 0 page_A)) w2 = Some w3 \<and> pid w2 = Suc (idCounter w1)
         \<and> TestSecondary (pid w2) \<notin> set (trace w3))
   \<and> map_option trace (exec (Request page_A props_single # replicate 8 (Fire 0 page_A)) world0)
       = Some [TestPrimary 1, TestPrimary 1, TestPrimary 1, TestPrimary 1, TestPrimary 1,
               TestPrimary 1, OnReady 1 (Some (Num 40))]"
proof -
  have h1: "mode props_single = Single" and h2: "forceSingleModeWidth props_single"
    by (simp_all add: props_single_def)
  note t = secondary_test_never_called[OF h1 h2 accepted_page_A, of "[]" "replicate 8 (Fire 0 page_A)"]
  have a: "step2 page_A (closure0 page_A props_single 1, world0)
     = Some (Called Null Undefined, (closure0 page_A props_single 1, world0))"
    using t by (simp add: closure0_def)
  have c: "map_option trace (exec (Request page_A props_single # replicate 8 (Fire 0 page_A)) world0)
       = Some [TestPrimary 1, TestPrimary 1, TestPrimary 1, TestPrimary 1, TestPrimary 1,
               TestPrimary 1, OnReady 1 (Some (Num 40))]"
    by code_simp
  show ?thesis using a t c by blast
qed




text \<open>
  C5. When the measured baseline height or width is not positive or is \<^verbatim>\<open>NaN\<close>,
  \<^verbatim>\<open>process\<close> returns normally and the world is as before but for one warning in the
  trace: no size is applied, no callback is left waiting, \<^verbatim>\<open>onReady\<close> is not called.
\<close>

theorem bad_baseline_aborts:
  assumes "hasRefs el"
    and "js_le (innerHeight el) (Num 0) \<or> isNaN (innerHeight el)
         \<or> js_le (innerWidth el) (Num 0) \<or> isNaN (innerWidth el)"
  shows "\<exists>m. process el p w = Some (w\<lparr>trace := trace w @ [Warn m]\<rparr>)"
proof (cases "js_le (innerHeight el) (Num 0) \<or> isNaN (innerHeight el)")
  case True
  then show ?thesis using assms(1) process_turned_away(2)[of el p w] by blast
next
  case False
  with assms(2) have "js_le (innerWidth el) (Num 0) \<or> isNaN (innerWidth el)" by blast
  then show ?thesis using assms(1) False process_turned_away(3)[of el p w] by blast
qed

theorem bad_baseline_aborts_witness:
  "innerHeight page_no_height = Num 0
   \<and> (\<exists>m. process page_no_height props_default world0 = Some (world0\<lparr>trace := [Warn m]\<rparr>))
   \<and> map_option (\<lambda>w. (state w, pid w, pending w)) (process page_no_height props_default world0)
       = Some (\<lparr>fontSize = None, ready = False\<rparr>, 0, [])"
proof -
  have h1: "hasRefs page_no_height" by (simp add: page_no_height_def page_A_def)
  have h2: "js_le (innerHeight page_no_height) (Num 0) \<or> isNaN (innerHeight page_no_height)
         \<or> js_le (innerWidth page_no_height) (Num 0) \<or> isNaN (innerWidth page_no_height)"
    by (simp add: page_no_height_def page_A_def)
  from bad_baseline_aborts[OF h1 h2, of props_default world0]
  obtain m where m: "process page_no_height props_default world0 = Some (world0\<lparr>trace := trace world0 @ [Warn m]\<rparr>)"
    by blast
  have t0: "trace world0 = []" by (simp add: world0_def)
  show ?thesis using m t0 by (auto simp add: page_no_height_def world0_def)
qed

lemma retrace_simps [simp]:
  "pid (retrace t w) = pid w" "state (retrace t w) = state w" "idCounter (retrace t w) = idCounter w"
  "pending (retrace t w) = pending w" "trace (retrace t w) = t @ trace w"
  by (simp_all add: retrace_def)

lemma retrace_s_pair [simp]: "retrace_s t (c, w) = (c, retrace t w)"
  by (simp add: retrace_s_def)

lemma series_each_commute:
  "(\<And>i s. i < length ts \<Longrightarrow> (ts ! i) (T s) = map_option (\<lambda>(out, s'). (out, T s')) ((ts ! i) s)) \<Longrightarrow>
   (\<And>e rs s. f e rs (T s) = (case f e rs s of (j, s') \<Rightarrow> (j, T s'))) \<Longrightarrow>
   series_each ts (Some f) e r (v, T s)
     = map_option (\<lambda>(k, v', s'). (k, v', T s')) (series_each ts (Some f) e r (v, s))"
proof (induction ts "Some f" e r "(v, s)" arbitrary: v s rule: series_each.induct)
  case (1 ts err result v s)
  note tsk = 1(2) and cb = 1(3)
  let ?v2 = "v\<lparr>results := results v @ [result], current := Suc (current v)\<rparr>"
  show ?case
  proof (cases "length ts \<le> Suc (current v) \<or> truthy err")
    case True
    then show ?thesis using cb
      by (simp add: series_each_stop series_done_def series_end_def split: prod.splits)
  next
    case False
    then have lt: "Suc (current v) < length ts" and ne: "\<not> truthy err" by auto
    show ?thesis
    proof (cases "(ts ! Suc (current v)) s")
      case None
      then show ?thesis using lt ne tsk[OF lt, of s] by (simp add: series_each_step)
    next
      case (Some a)
      obtain out s' where a: "a = (out, s')" by (cases a)
      have tT: "(ts ! Suc (current v)) (T s) = Some (out, T s')"
        using tsk[OF lt, of s] Some a by simp
      show ?thesis
      proof (cases out)
        case (Pending k)
        then show ?thesis using lt ne Some a tT
          by (simp add: series_each_step series_resume_def)
      next
        case (Called e' r')
        have IH: "series_each ts (Some f) e' r' (?v2, T s')
           = map_option (\<lambda>(k, v', s'). (k, v', T s')) (series_each ts (Some f) e' r' (?v2, s'))"
          using 1(1)[of "v\<lparr>results := results v @ [result]\<rparr>" ?v2 "(Called e' r', s')"
                        "Called e' r'" s' e' r'] lt ne Some a Called tsk cb
          by simp
        show ?thesis using lt ne Some a Called tT
          by (simp add: series_each_step series_resume_def IH)
      qed
    qed
  qed
qed


lemma retrace_setState:
  "setState_fontSize m (retrace t w) = retrace t (setState_fontSize m w)"
  "setState_ready b (retrace t w) = retrace t (setState_ready b w)"
  by (simp_all add: retrace_def setState_fontSize_def setState_ready_def)

lemma retrace_tests:
  "testPrimary el (c, retrace t w) = (fst (testPrimary el (c, w)), retrace t (snd (testPrimary el (c, w))))"
  "testSecondary el (c, retrace t w) = (fst (testSecondary el (c, w)), retrace t (snd (testSecondary el (c, w))))"
  by (simp_all add: testPrimary_def testSecondary_def assertElementFitsWidth_def
        assertElementFitsHeight_def retrace_def)

lemma retrace_whilst:
  "whilst test1 iterator1 (c, retrace t w)
     = map_option (\<lambda>(out, s'). (out, retrace_s t s')) (whilst test1 iterator1 (c, w))"
  "whilst test2 iterator2 (c, retrace t w)
     = map_option (\<lambda>(out, s'). (out, retrace_s t s')) (whilst test2 iterator2 (c, w))"
  "whilst_next test1 iterator1 err (c, retrace t w)
     = map_option (\<lambda>(out, s'). (out, retrace_s t s')) (whilst_next test1 iterator1 err (c, w))"
  "whilst_next test2 iterator2 err (c, retrace t w)
     = map_option (\<lambda>(out, s'). (out, retrace_s t s')) (whilst_next test2 iterator2 err (c, w))"
  by (simp_all add: whilst_iterator1 whilst_iterator2 whilst_next_iterator1 whilst_next_iterator2
        retrace_setState)

lemma retrace_step2:
  "step2 el (c, retrace t w) = map_option (\<lambda>(out, s'). (out, retrace_s t s')) (step2 el (c, w))"
proof (cases "single_forced (props c)")
  case True
  then show ?thesis by (simp add: step2_skip)
next
  case False
  obtain fits w' where ts: "testSecondary el (c, w) = (fits, w')"
    by (cases "testSecondary el (c, w)")
  then have ts': "testSecondary el (c, retrace t w) = (fits, retrace t w')"
    by (simp add: retrace_tests)
  show ?thesis
    by (simp add: step2_test[OF False ts] step2_test[OF False ts'] retrace_whilst)
qed

lemma retrace_step3:
  "step3 (c, retrace t w) = map_option (\<lambda>(out, s'). (out, retrace_s t s')) (step3 (c, w))"
  by (simp add: step3_eq retrace_setState)

lemma retrace_tasks:
  "i < length (tasks el) \<Longrightarrow>
   (tasks el ! i) (retrace_s t s) = map_option (\<lambda>(out, s'). (out, retrace_s t s')) ((tasks el ! i) s)"
proof -
  assume "i < length (tasks el)"
  then have "i < 3" by simp
  then consider "i = 0" | "i = 1" | "i = 2" by linarith
  then show ?thesis
    by cases (cases s; simp add: tasks_def step1_def retrace_whilst retrace_step2 retrace_step3)+
qed

lemma retrace_final_cb:
  "final_cb e rs (retrace_s t s) = (case final_cb e rs s of (j, s') \<Rightarrow> (j, retrace_s t s'))"
  by (cases s) (simp add: final_cb_def shouldCancelProcess_def retrace_setState)

lemma retrace_each:
  "series_each (tasks el) (Some final_cb) e r (v, (c, retrace t w))
     = map_option (\<lambda>(k, v', s'). (k, v', retrace_s t s'))
         (series_each (tasks el) (Some final_cb) e r (v, (c, w)))"
  using series_each_commute[of "tasks el" "retrace_s t" final_cb e r v "(c, w)",
          OF retrace_tasks retrace_final_cb]
  by simp

lemma retrace_suspend:
  "suspend (map_option (\<lambda>(k, v', s'). (k, v', retrace_s t s')) r) = map_option (retrace t) (suspend r)"
  by (cases r) (auto simp: suspend_def retrace_def split: option.splits)

lemma retrace_series_resume:
  "series_resume (tasks el) (Some final_cb) out (v, (c, retrace t w))
     = map_option (\<lambda>(k, v', s'). (k, v', retrace_s t s'))
         (series_resume (tasks el) (Some final_cb) out (v, (c, w)))"
  by (cases out) (simp_all add: series_resume_def retrace_each)


lemma retrace_callbacks:
  "callback1 el (c, retrace t w) = (case callback1 el (c, w) of (err, s) \<Rightarrow> (err, retrace_s t s))"
  "callback2 el (c, retrace t w) = (case callback2 el (c, w) of (err, s) \<Rightarrow> (err, retrace_s t s))"
  by (simp_all add: callback1_def callback2_def shouldCancelProcess_def retrace_tests
        split: prod.splits)

lemma retrace_resume:
  "resume el x (retrace t w) = map_option (retrace t) (resume el x w)"
proof -
  obtain k v c where x: "x = (k, v, c)" by (cases x)
  show ?thesis
  proof (cases k)
    case (Task j)
    show ?thesis
    proof (cases j)
      case CbPhase1
      obtain err c1 w1 where cb: "callback1 el (c, w) = (err, (c1, w1))"
        by (cases "callback1 el (c, w)") auto
      obtain out c2 w2 where nx: "whilst_next test1 iterator1 err (c1, w1) = Some (out, (c2, w2))"
        by (cases "whilst_next test1 iterator1 err (c1, w1)") (auto simp: whilst_next_iterator1)
      show ?thesis using x Task CbPhase1 cb nx
        by (simp add: resume_phase1 retrace_callbacks retrace_whilst retrace_series_resume
              retrace_suspend)
    next
      case CbPhase2
      obtain err c1 w1 where cb: "callback2 el (c, w) = (err, (c1, w1))"
        by (cases "callback2 el (c, w)") auto
      obtain out c2 w2 where nx: "whilst_next test2 iterator2 err (c1, w1) = Some (out, (c2, w2))"
        by (cases "whilst_next test2 iterator2 err (c1, w1)") (auto simp: whilst_next_iterator2)
      show ?thesis using x Task CbPhase2 cb nx
        by (simp add: resume_phase2 retrace_callbacks retrace_whilst retrace_series_resume
              retrace_suspend)
    next
      case CbFinal
      then show ?thesis using x Task
        by (simp add: resume_def retrace_each retrace_suspend)
    qed
  next
    case (Timer e)
    then show ?thesis using x
      by (simp add: resume_def end_final suspend_def retrace_setState)
  next
    case (After j)
    then show ?thesis using x
      by (cases j) (simp add: resume_def callback_ready_def retrace_def)
  qed
qed

lemma retrace_pending_update:
  "(retrace t w)\<lparr>pending := ps\<rparr> = retrace t (w\<lparr>pending := ps\<rparr>)"
  by (simp add: retrace_def)

lemma retrace_fire: "fire i el (retrace t w) = map_option (retrace t) (fire i el w)"
  by (simp add: fire_def retrace_pending_update retrace_resume)

lemma retrace_world1: "world1 (retrace t w) = retrace t (world1 w)"
  by (simp add: world1_def retrace_def setState_ready_def)

lemma retrace_series:
  "series (tasks el) (Some final_cb) (c, retrace t w)
     = map_option (\<lambda>(k, v', s'). (k, v', retrace_s t s')) (series (tasks el) (Some final_cb) (c, w))"
proof -
  obtain out c1 w1 where wh: "whilst test1 iterator1 (c, w) = Some (out, (c1, w1))"
    by (cases "whilst test1 iterator1 (c, w)") (auto simp: whilst_iterator1)
  let ?X = "series_resume (tasks el) (Some final_cb) out
              (\<lparr>results = [], current = 0, isSync = True\<rparr>, (c1, w1))"
  have "series (tasks el) (Some final_cb) (c, retrace t w)
          = map_option (\<lambda>(k, v, s'). (k, v\<lparr>isSync := False\<rparr>, s'))
              (map_option (\<lambda>(k, v', s'). (k, v', retrace_s t s')) ?X)"
    using wh by (simp add: series_tasks retrace_whilst retrace_series_resume)
  moreover have "series (tasks el) (Some final_cb) (c, w)
          = map_option (\<lambda>(k, v, s'). (k, v\<lparr>isSync := False\<rparr>, s')) ?X"
    using wh by (simp add: series_tasks)
  ultimately show ?thesis by (cases ?X) auto
qed

lemma retrace_process: "process el p (retrace t w) = map_option (retrace t) (process el p w)"
proof (cases "accepted el")
  case True
  then show ?thesis
    by (simp add: process_accepted retrace_world1 retrace_series retrace_suspend)
next
  case False
  then consider "\<not> hasRefs el"
    | "hasRefs el" "js_le (innerHeight el) (Num 0) \<or> isNaN (innerHeight el)"
    | "hasRefs el" "\<not> (js_le (innerHeight el) (Num 0) \<or> isNaN (innerHeight el))"
      "js_le (innerWidth el) (Num 0) \<or> isNaN (innerWidth el)"
    unfolding accepted_def by blast
  then show ?thesis
    by cases (simp_all add: process_turned_away retrace_def)
qed

lemma retrace_perform: "perform a (retrace t w) = map_option (retrace t) (perform a w)"
proof (cases a)
  case (Request el p)
  then show ?thesis by (simp add: retrace_process)
next
  case (Fire i el)
  then show ?thesis by (simp add: retrace_fire)
next
  case Unmount
  then show ?thesis by (simp add: unmount_eq retrace_def)
qed

lemma retrace_exec: "exec sched (retrace t w) = map_option (retrace t) (exec sched w)"
proof (induction sched arbitrary: w)
  case Nil
  then show ?case by simp
next
  case (Cons a sched)
  show ?case
    by (cases "perform a w") (simp_all add: retrace_perform Cons.IH)
qed

lemma perform_total: "\<exists>w'. perform a w = Some w'"
proof (cases a)
  case (Request el p)
  then show ?thesis using process_started[of p w el] by (auto simp: started_def)
next
  case (Fire i el)
  show ?thesis
  proof (cases "i < length (pending w)")
    case True
    from fire_fired[OF True, of el] show ?thesis using Fire by (auto simp: fired_def)
  next
    case False
    then show ?thesis using Fire by (simp add: fire_idle)
  qed
next
  case Unmount
  then show ?thesis by simp
qed

lemma exec_total: "\<exists>w'. exec sched w = Some w'"
proof (induction sched arbitrary: w)
  case Nil
  then show ?case by simp
next
  case (Cons a sched)
  from perform_total[of a w] obtain w1 where 1: "perform a w = Some w1" ..
  from Cons.IH[of w1] obtain w2 where 2: "exec sched w1 = Some w2" ..
  show ?case using 1 2 by simp
qed

lemma retrace_self: "retrace (trace w) (w\<lparr>trace := []\<rparr>) = w"
  by (simp add: retrace_def)

text \<open>
  C10. A fit request that fails the baseline check leaves the token, the id counter, the
  component state and the waiting callbacks as they are; whatever happens later happens
  exactly as it would have without the request, event for event (among them the
  \<^verbatim>\<open>onReady\<close> of a fit that was in flight), the trace only has the warning in it.
\<close>

theorem failed_request_leaves_engine_alone:
  assumes "hasRefs el"
    and "js_le (innerHeight el) (Num 0) \<or> isNaN (innerHeight el)
         \<or> js_le (innerWidth el) (Num 0) \<or> isNaN (innerWidth el)"
  shows "\<exists>w' m u. process el p w = Some w' \<and> w' = w\<lparr>trace := trace w @ [Warn m]\<rparr>
           \<and> pid w' = pid w \<and> idCounter w' = idCounter w
           \<and> state w' = state w \<and> pending w' = pending w
           \<and> exec later (w\<lparr>trace := []\<rparr>) = Some u
           \<and> exec later w = Some (u\<lparr>trace := trace w @ trace u\<rparr>)
           \<and> exec later w' = Some (u\<lparr>trace := trace w @ [Warn m] @ trace u\<rparr>)"
proof -
  have "\<exists>m. process el p w = Some (w\<lparr>trace := trace w @ [Warn m]\<rparr>)"
  proof (cases "js_le (innerHeight el) (Num 0) \<or> isNaN (innerHeight el)")
    case True
    then show ?thesis using assms(1) process_turned_away(2)[of el p w] by blast
  next
    case False
    with assms(2) have "js_le (innerWidth el) (Num 0) \<or> isNaN (innerWidth el)" by blast
    then show ?thesis using assms(1) False process_turned_away(3)[of el p w] by blast
  qed
  then obtain m where pr: "process el p w = Some (w\<lparr>trace := trace w @ [Warn m]\<rparr>)" ..
  let ?w' = "w\<lparr>trace := trace w @ [Warn m]\<rparr>"
  let ?e = "w\<lparr>trace := []\<rparr>"
  from exec_total[of later ?e] obtain u where u: "exec later ?e = Some u" ..
  have a: "exec later w = Some (u\<lparr>trace := trace w @ trace u\<rparr>)"
    using retrace_exec[of later "trace w" ?e] u by (simp add: retrace_self) 
  have w': "?w' = retrace (trace w @ [Warn m]) ?e" by (simp add: retrace_def)
  have b: "exec later ?w' = Some (u\<lparr>trace := trace w @ [Warn m] @ trace u\<rparr>)"
    using retrace_exec[of later "trace w @ [Warn m]" ?e] u unfolding w'[symmetric]
    by (simp add: retrace_def)
  show ?thesis
    by (intro exI[of _ ?w'] exI[of _ m] exI[of _ u]) (use pr u a b in simp)
qed


theorem failed_request_leaves_engine_alone_witness:
  "map_option (\<lambda>w. (pid w, idCounter w, state w, length (pending w), trace w))
      (process page_no_height props_default world_in_flight)
     = Some (1, 1, \<lparr>fontSize = Some (Num 1), ready = False\<rparr>, 1,
             [Warn ''Can not process element without height. Make sure the element is displayed and has a static height.''])
   \<and> map_option trace (exec (replicate 3 (Fire 0 page_A)) world_in_flight)
       = Some [TestPrimary 1, TestSecondary 1, OnReady 1 (Some (Num 1))]
   \<and> map_option trace (exec (Request page_no_height props_default # replicate 3 (Fire 0 page_A)) world_in_flight)
       = Some [Warn ''Can not process element without height. Make sure the element is displayed and has a static height.'',
               TestPrimary 1, TestSecondary 1, OnReady 1 (Some (Num 1))]"
proof -
  have h1: "hasRefs page_no_height" by (simp add: page_no_height_def page_A_def)
  have h2: "js_le (innerHeight page_no_height) (Num 0) \<or> isNaN (innerHeight page_no_height)
         \<or> js_le (innerWidth page_no_height) (Num 0) \<or> isNaN (innerWidth page_no_height)"
    by (simp add: page_no_height_def page_A_def)
  note t = failed_request_leaves_engine_alone[OF h1 h2, of props_default world_in_flight
             "replicate 3 (Fire 0 page_A)"]
  have a: "map_option (\<lambda>w. (pid w, idCounter w, state w, length (pending w), trace w))
      (process page_no_height props_default world_in_flight)
     = Some (1, 1, \<lparr>fontSize = Some (Num 1), ready = False\<rparr>, 1,
             [Warn ''Can not process element without height. Make sure the element is displayed and has a static height.''])"
    by code_simp
  have b: "map_option trace (exec (replicate 3 (Fire 0 page_A)) world_in_flight)
       = Some [TestPrimary 1, TestSecondary 1, OnReady 1 (Some (Num 1))]"
    by code_simp
  have c: "map_option trace (exec (Request page_no_height props_default # replicate 3 (Fire 0 page_A)) world_in_flight)
       = Some [Warn ''Can not process element without height. Make sure the element is displayed and has a static height.'',
               TestPrimary 1, TestSecondary 1, OnReady 1 (Some (Num 1))]"
    by code_simp
  show ?thesis using t a b c by blast
qed


lemma stale_callbacks_abort:
  assumes "c_pid c \<noteq> pid w" and "\<not> isSync v"
    and "k = Task CbPhase1 \<or> k = Task CbPhase2 \<or> (k = Task CbFinal \<and> 2 \<le> current v) \<or> k = Timer e"
  shows "resume el (k, v, c) w = Some w"
proof -
  from assms(3) consider "k = Task CbPhase1" | "k = Task CbPhase2"
    | "k = Task CbFinal" "2 \<le> current v" | "k = Timer e" by blast
  then show ?thesis
  proof cases
    case 1
    then show ?thesis using assms(1,2)
      by (simp add: resume_phase1 callback1_stale whilst_next_iterator1 resume_called each_last
            suspend_def)
  next
    case 2
    then show ?thesis using assms(1,2)
      by (simp add: resume_phase2 callback2_stale whilst_next_iterator2 resume_called each_last
            suspend_def)
  next
    case 3
    then show ?thesis using assms(1,2)
      by (simp add: resume_def each_last suspend_def)
  next
    case 4
    then show ?thesis using assms(1)
      by (simp add: resume_def end_final suspend_def)
  qed
qed

text \<open>
  C2, at the failing input. A first run (both limits 1) reaches its terminal callback,
  which sets \<^verbatim>\<open>ready\<close> and leaves the \<^verbatim>\<open>onReady\<close> callback waiting; a second request
  (both limits 2) mints token 2; the callback of the stale run then runs and calls
  \<^verbatim>\<open>onReady(1)\<close>; the second run later calls \<^verbatim>\<open>onReady(2)\<close>.
\<close>

theorem stale_run_fires_onReady:
  "map_option (\<lambda>w. (pid w, map (\<lambda>(k, v, c). (k, c_pid c)) (pending w), trace w))
     (exec [Request page_A (props_fixed 1), Fire 0 page_A, Fire 0 page_A,
            Request page_A (props_fixed 2)] world0)
     = Some (2, [(After CbReady, 1), (Task CbPhase1, 2)], [TestPrimary 1, TestSecondary 1])
   \<and> map_option trace
       (exec [Request page_A (props_fixed 1), Fire 0 page_A, Fire 0 page_A,
              Request page_A (props_fixed 2), Fire 0 page_A] world0)
     = Some [TestPrimary 1, TestSecondary 1, OnReady 1 (Some (Num 1))]
   \<and> map_option trace
       (exec [Request page_A (props_fixed 1), Fire 0 page_A, Fire 0 page_A,
              Request page_A (props_fixed 2), Fire 0 page_A,
              Fire 0 page_A, Fire 0 page_A, Fire 0 page_A] world0)
     = Some [TestPrimary 1, TestSecondary 1, OnReady 1 (Some (Num 1)),
             TestPrimary 2, TestSecondary 2, OnReady 2 (Some (Num 2))]"
  by code_simp


text \<open>
  C4, at the failing input. With both bounds at 41 the test of step 1 holds and the test
  of step 2 does not: the second loop ends without trying 41, where the first would try
  it. On \<open>page_A\<close> with the default props the second search ends so, step 3 takes
  \<open>min(41, 41)\<close>, and the size reported to \<^verbatim>\<open>onReady\<close> is 41, at which the secondary test
  fails, while it passes at 40.
\<close>

theorem phase2_stops_one_short:
  "test1 (closure_41, world_41) \<and> \<not> test2 (closure_41, world_41)
   \<and> whilst test2 iterator2 (closure_41, world_41) = Some (Called Null Undefined, (closure_41, world_41))
   \<and> whilst test1 iterator1 (closure_41, world_41)
       = Some (Pending CbPhase1, (closure_41\<lparr>mid := Some (Num 41)\<rparr>,
                                  setState_fontSize (Some (Num 41)) world_41))
   \<and> map_option (\<lambda>w. (state w, pending w, trace w))
       (exec (Request page_A props_default # replicate 11 (Fire 0 page_A)) world0)
       = Some (\<lparr>fontSize = Some (Num 41), ready = False\<rparr>,
               [(Task CbFinal, \<lparr>results = [Undefined, Undefined], current = 2, isSync = False\<rparr>,
                 closure_41\<lparr>mid := Some (Num 41)\<rparr>)],
               replicate 6 (TestPrimary 1) @ replicate 6 (TestSecondary 1))
   \<and> map_option (\<lambda>w. (state w, last (trace w)))
       (exec (Request page_A props_default # replicate 13 (Fire 0 page_A)) world0)
       = Some (\<lparr>fontSize = Some (Num 41), ready = True\<rparr>, OnReady 1 (Some (Num 41)))
   \<and> \<not> assertElementFitsWidth page_A (world_41\<lparr>state := \<lparr>fontSize = Some (Num 41), ready = True\<rparr>\<rparr>) (Num 200)
   \<and> assertElementFitsWidth page_A (world_41\<lparr>state := \<lparr>fontSize = Some (Num 40), ready = True\<rparr>\<rparr>) (Num 200)"
  by code_simp


end
